theory Spec2Isabelle
  imports Main "HOL-Library.Stream" "HOL-Library.Multiset" "HOL-Library.Product_Lexorder"
begin

section \<open>Data model (table definitions)\<close>

text \<open>
  The schema is PostgreSQL DDL. A table is a list of rows, a row is a record with one
  field per column (prefixed with the table's initials, since columns such as
  \<^verbatim>\<open>id\<close> and \<^verbatim>\<open>user_id\<close> occur in several tables). A nullable column is
  an \<open>option\<close>. \<^verbatim>\<open>UUID\<close> values are natural numbers, \<^verbatim>\<open>TIMESTAMP\<close> values are
  natural numbers (ticks of the server clock), and \<^verbatim>\<open>DECIMAL(10,2)\<close> values are
  integers counting hundredths, so that the tolerance \<^verbatim>\<open>0.05\<close> is \<open>5\<close>.
\<close>

type_synonym uuid = nat
type_synonym timestamp = nat
type_synonym decimal = int

text \<open>
  \<^verbatim>\<open>orders.status\<close> is \<^verbatim>\<open>VARCHAR(20)\<close> with a \<^verbatim>\<open>CHECK\<close> that admits exactly the six
  labels of the enum type \<^verbatim>\<open>order_status\<close>.
\<close>

datatype order_status = Placed | Confirmed | Preparing | Ready | Completed | Cancelled

datatype notification_type =
  Order_placed | Order_confirmed | Order_ready | Order_completed | Order_cancelled
  | System_message

datatype error =
  UniqueViolation
  | ForeignKeyViolation
  | CheckViolation
  | NotNullViolation
  | StringTooLong
  | NumericOverflow
  | RaisedException string

record profile =
  pf_id :: uuid
  pf_user_id :: uuid
  pf_full_name :: string
  pf_phone :: "string option"
  pf_role :: string

record menu_item =
  mi_id :: uuid
  mi_category_id :: uuid
  mi_name :: string
  mi_price :: decimal
  mi_available :: bool

record order =
  o_id :: uuid
  o_user_id :: uuid
  o_status :: order_status
  o_total_amount :: decimal
  o_pickup_time :: "timestamp option"
  o_pickup_code :: string
  o_notes :: "string option"
  o_created_at :: timestamp
  o_updated_at :: timestamp
  o_completed_at :: "timestamp option"

record order_item =
  oi_id :: uuid
  oi_order_id :: uuid
  oi_menu_item_id :: uuid
  oi_quantity :: int
  oi_unit_price :: decimal
  oi_special_instructions :: "string option"
  oi_created_at :: timestamp

record status_history =
  h_id :: uuid
  h_order_id :: uuid
  h_previous_status :: "order_status option"
  h_new_status :: order_status
  h_changed_by :: "uuid option"
  h_changed_at :: timestamp
  h_notes :: "string option"

record notification =
  n_id :: uuid
  n_user_id :: uuid
  n_order_id :: "uuid option"
  n_type :: notification_type
  n_title :: string
  n_message :: string
  n_sent_at :: timestamp
  n_read_at :: "timestamp option"

text \<open>
  The database state. \<open>auth_users\<close> holds the ids of the rows of the platform's
  \<^verbatim>\<open>auth.users\<close> table, which the foreign keys of \<^verbatim>\<open>profiles\<close>, \<^verbatim>\<open>orders\<close> and
  \<^verbatim>\<open>notifications\<close> reference. \<open>uuid_supply\<close> stands for \<^verbatim>\<open>uuid_generate_v4()\<close>:
  each call returns the counter and increments it. The tables that none of the
  functions, triggers and statements below reads or writes (categories, payments,
  push tokens, settings) are left out, and so are the columns of \<^verbatim>\<open>profiles\<close> and
  \<^verbatim>\<open>menu_items\<close> that they do not use.
\<close>

record db =
  auth_users :: "uuid list"
  profiles :: "profile list"
  menu_items :: "menu_item list"
  orders :: "order list"
  order_items :: "order_item list"
  order_status_history :: "status_history list"
  notifications :: "notification list"
  uuid_supply :: nat

definition empty_db :: db where
  "empty_db = \<lparr>auth_users = [], profiles = [], menu_items = [], orders = [],
     order_items = [], order_status_history = [], notifications = [], uuid_supply = 0\<rparr>"

section \<open>Text helpers\<close>

definition digit_char :: "nat \<Rightarrow> char" where
  "digit_char d = ''0123456789'' ! d"

text \<open>The \<^verbatim>\<open>::TEXT\<close> cast of a non-negative whole number: its decimal digits.\<close>

function nat_to_text :: "nat \<Rightarrow> string" where
  "nat_to_text n =
     (if n < 10 then [digit_char n] else nat_to_text (n div 10) @ [digit_char (n mod 10)])"
  by pat_completeness auto
termination
  by (relation "measure (\<lambda>n. n)") auto

declare nat_to_text.simps [simp del]

text \<open>
  \<^verbatim>\<open>LPAD(string, length, fill)\<close>: a string that is already long enough is cut to
  \<^verbatim>\<open>length\<close> characters; otherwise the fill text is repeated in front of it.
\<close>

definition lpad :: "string \<Rightarrow> nat \<Rightarrow> string \<Rightarrow> string" where
  "lpad s n fill =
     (if n \<le> length s then take n s
      else if fill = [] then s
      else take (n - length s) (concat (replicate (n - length s) fill)) @ s)"

fun status_text :: "order_status \<Rightarrow> string" where
  "status_text Placed = ''placed''"
| "status_text Confirmed = ''confirmed''"
| "status_text Preparing = ''preparing''"
| "status_text Ready = ''ready''"
| "status_text Completed = ''completed''"
| "status_text Cancelled = ''cancelled''"

section \<open>Database functions\<close>

subsection \<open>Pickup code generation\<close>

text \<open>
  \<^verbatim>\<open>generate_pickup_code()\<close>. The stream \<open>rnd\<close> lists the values that
  \<^verbatim>\<open>FLOOR(RANDOM() * 10000)\<close> takes in successive iterations of the loop (whole
  numbers from 0 to 9999). The loop has no bound, so the function is partial: \<open>None\<close>
  means that it never returns.
\<close>

definition code_exists :: "order list \<Rightarrow> string \<Rightarrow> bool" where
  "code_exists os new_code =
     list_ex (\<lambda>ord. o_pickup_code ord = new_code \<and> o_status ord \<notin> {Completed, Cancelled}) os"

definition draw_code :: "nat \<Rightarrow> string" where
  "draw_code r = lpad (nat_to_text r) 4 ''0''"

partial_function (option) generate_pickup_code :: "order list \<Rightarrow> nat stream \<Rightarrow> string option"
  where
  "generate_pickup_code os rnd =
     (if code_exists os (draw_code (shd rnd)) then generate_pickup_code os (stl rnd)
      else Some (draw_code (shd rnd)))"

subsection \<open>Order calculations\<close>

text \<open>
  Storing a number in a \<^verbatim>\<open>DECIMAL(10,2)\<close> variable or column fails with a numeric
  overflow when its absolute value reaches \<^verbatim>\<open>10^8\<close>, that is \<open>10^10\<close> hundredths.
\<close>

definition to_decimal_10_2 :: "int \<Rightarrow> error + decimal" where
  "to_decimal_10_2 v = (if \<bar>v\<bar> < 10 ^ 10 then Inr v else Inl NumericOverflow)"

text \<open>\<^verbatim>\<open>COALESCE(SUM(quantity * unit_price), 0)\<close> over the items of one order.\<close>

definition items_sum :: "db \<Rightarrow> uuid \<Rightarrow> int" where
  "items_sum d p_order_id =
     sum_list (map (\<lambda>i. oi_quantity i * oi_unit_price i)
       (filter (\<lambda>i. oi_order_id i = p_order_id) (order_items d)))"

definition calculate_order_total :: "db \<Rightarrow> uuid \<Rightarrow> error + decimal" where
  "calculate_order_total d p_order_id = to_decimal_10_2 (items_sum d p_order_id)"

subsection \<open>Order validation\<close>

text \<open>
  \<^verbatim>\<open>verify_pickup_code(p_pickup_code)\<close> returns a table: the rows
  \<^verbatim>\<open>(order_id, user_id, status, total_amount, created_at)\<close> of the orders with that
  code and status \<^verbatim>\<open>'ready'\<close>. The empty table is the only negative answer it has.
\<close>

definition verify_pickup_code ::
  "db \<Rightarrow> string \<Rightarrow> (uuid \<times> uuid \<times> string \<times> decimal \<times> timestamp) list" where
  "verify_pickup_code d p_pickup_code =
     map (\<lambda>ord. (o_id ord, o_user_id ord, status_text (o_status ord), o_total_amount ord,
                 o_created_at ord))
       (filter (\<lambda>ord. o_pickup_code ord = p_pickup_code \<and> o_status ord = Ready) (orders d))"

subsection \<open>Notification helpers\<close>

text \<open>
  \<^verbatim>\<open>mark_notifications_read(p_user_id, p_notification_ids)\<close>; \<open>None\<close> is the default
  \<^verbatim>\<open>NULL\<close> of the second argument. The result is the changed database and
  \<^verbatim>\<open>ROW_COUNT\<close>.
\<close>

definition to_mark :: "uuid \<Rightarrow> uuid list option \<Rightarrow> notification \<Rightarrow> bool" where
  "to_mark p_user_id p_notification_ids n =
     (case p_notification_ids of
        None \<Rightarrow> n_user_id n = p_user_id \<and> n_read_at n = None
      | Some ids \<Rightarrow> n_user_id n = p_user_id \<and> n_id n \<in> set ids \<and> n_read_at n = None)"

definition mark_notifications_read ::
  "timestamp \<Rightarrow> uuid \<Rightarrow> uuid list option \<Rightarrow> db \<Rightarrow> db \<times> nat" where
  "mark_notifications_read now p_user_id p_notification_ids d =
     (d\<lparr>notifications :=
          map (\<lambda>n. if to_mark p_user_id p_notification_ids n then n\<lparr>n_read_at := Some now\<rparr> else n)
            (notifications d)\<rparr>,
      length (filter (to_mark p_user_id p_notification_ids) (notifications d)))"

section \<open>Triggers\<close>

text \<open>
  Rows that a trigger inserts take their \<^verbatim>\<open>id\<close> from \<^verbatim>\<open>uuid_generate_v4()\<close>, the
  column default.
\<close>

definition insert_history :: "status_history \<Rightarrow> db \<Rightarrow> db" where
  "insert_history h d =
     d\<lparr>order_status_history := order_status_history d @ [h\<lparr>h_id := uuid_supply d\<rparr>],
       uuid_supply := Suc (uuid_supply d)\<rparr>"

definition insert_notification :: "notification \<Rightarrow> db \<Rightarrow> db" where
  "insert_notification n d =
     d\<lparr>notifications := notifications d @ [n\<lparr>n_id := uuid_supply d\<rparr>],
       uuid_supply := Suc (uuid_supply d)\<rparr>"

text \<open>\<^verbatim>\<open>update_updated_at_column()\<close>, attached to \<^verbatim>\<open>orders\<close> before every update of a row.\<close>

definition update_updated_at_column :: "timestamp \<Rightarrow> order \<Rightarrow> order" where
  "update_updated_at_column now new = new\<lparr>o_updated_at := now\<rparr>"

text \<open>
  \<^verbatim>\<open>set_pickup_code()\<close>, before insert on \<^verbatim>\<open>orders\<close>. The argument is the
  \<^verbatim>\<open>pickup_code\<close> of the row being inserted (\<open>None\<close> for \<^verbatim>\<open>NULL\<close>); the outer
  \<open>option\<close> of the result is that of \<open>generate_pickup_code\<close>.
\<close>

definition set_pickup_code :: "order list \<Rightarrow> nat stream \<Rightarrow> string option \<Rightarrow> string option" where
  "set_pickup_code os rnd new_pickup_code =
     (case new_pickup_code of
        None \<Rightarrow> generate_pickup_code os rnd
      | Some c \<Rightarrow> if c = [] then generate_pickup_code os rnd else Some c)"

text \<open>
  \<^verbatim>\<open>log_order_status_change()\<close>, before update on \<^verbatim>\<open>orders\<close>. It writes
  \<^verbatim>\<open>NEW.user_id\<close>, the owner of the order, into \<^verbatim>\<open>changed_by\<close>.
\<close>

definition log_order_status_change :: "timestamp \<Rightarrow> order \<Rightarrow> order \<Rightarrow> db \<Rightarrow> order \<times> db" where
  "log_order_status_change now old new d =
     (if o_status old \<noteq> o_status new then
        (if o_status new = Completed then new\<lparr>o_completed_at := Some now\<rparr> else new,
         insert_history
           \<lparr>h_id = 0, h_order_id = o_id new, h_previous_status = Some (o_status old),
            h_new_status = o_status new, h_changed_by = Some (o_user_id new),
            h_changed_at = now,
            h_notes = Some (''Status changed from '' @ status_text (o_status old) @ '' to ''
                            @ status_text (o_status new))\<rparr> d)
      else (new, d))"

text \<open>
  \<^verbatim>\<open>validate_order_total()\<close>. The function is defined, but the statement that would
  attach it to \<^verbatim>\<open>orders\<close> is commented out in the trigger script, so no insert or
  update runs it.
\<close>

definition validate_order_total :: "order \<Rightarrow> db \<Rightarrow> error + order" where
  "validate_order_total new d =
     (case to_decimal_10_2 (items_sum d (o_id new)) of
        Inl e \<Rightarrow> Inl e
      | Inr calculated_total \<Rightarrow>
          if \<bar>o_total_amount new - calculated_total\<bar> > 5
          then Inl (RaisedException ''Order total does not match sum of items'')
          else Inr new)"

text \<open>
  \<^verbatim>\<open>notify_order_ready()\<close>, after update on \<^verbatim>\<open>orders\<close>. The text of an id is its
  decimal numeral here.
\<close>

definition notify_order_ready :: "timestamp \<Rightarrow> order \<Rightarrow> order \<Rightarrow> db \<Rightarrow> db" where
  "notify_order_ready now old new d =
     (if o_status old \<noteq> o_status new \<and> o_status new = Ready then
        insert_notification
          \<lparr>n_id = 0, n_user_id = o_user_id new, n_order_id = Some (o_id new),
           n_type = Order_ready, n_title = ''Your Order is Ready!'',
           n_message = ''Order #'' @ take 8 (nat_to_text (o_id new))
                       @ '' is ready for pickup. Your pickup code is: '' @ o_pickup_code new,
           n_sent_at = now, n_read_at = None\<rparr> d
      else d)"

text \<open>\<^verbatim>\<open>notify_order_placed()\<close>, after insert on \<^verbatim>\<open>orders\<close>.\<close>

definition notify_order_placed :: "timestamp \<Rightarrow> order \<Rightarrow> db \<Rightarrow> db" where
  "notify_order_placed now new d =
     insert_notification
       \<lparr>n_id = 0, n_user_id = o_user_id new, n_order_id = Some (o_id new),
        n_type = Order_placed, n_title = ''Order Confirmed'',
        n_message = ''Your order has been received and is being prepared. ''
                    @ ''We'' @ [CHR 0x27] @ ''ll notify you when it'' @ [CHR 0x27] @ ''s ready!'',
        n_sent_at = now, n_read_at = None\<rparr> d"

text \<open>
  \<^verbatim>\<open>validate_menu_item_availability()\<close>, before insert on \<^verbatim>\<open>order_items\<close>. When no
  menu item has the id, \<^verbatim>\<open>item_available\<close> is \<^verbatim>\<open>NULL\<close> and the \<^verbatim>\<open>IF\<close> does not
  raise; the foreign key rejects the row afterwards.
\<close>

definition validate_menu_item_availability :: "order_item \<Rightarrow> db \<Rightarrow> error + order_item" where
  "validate_menu_item_availability new d =
     (case find (\<lambda>m. mi_id m = oi_menu_item_id new) (menu_items d) of
        None \<Rightarrow> Inr new
      | Some m \<Rightarrow>
          if \<not> mi_available m then Inl (RaisedException ''Cannot order unavailable menu item'')
          else Inr new)"

text \<open>\<^verbatim>\<open>create_profile_for_new_user()\<close>, after insert on \<^verbatim>\<open>auth.users\<close>.\<close>

definition create_profile_for_new_user :: "uuid \<Rightarrow> string option \<Rightarrow> db \<Rightarrow> db" where
  "create_profile_for_new_user new_id full_name d =
     (if list_ex (\<lambda>p. pf_user_id p = new_id) (profiles d) then d
      else d\<lparr>profiles := profiles d @
                [\<lparr>pf_id = uuid_supply d, pf_user_id = new_id,
                  pf_full_name = (case full_name of None \<Rightarrow> ''User'' | Some n \<Rightarrow> n),
                  pf_phone = None, pf_role = ''student''\<rparr>],
             uuid_supply := Suc (uuid_supply d)\<rparr>)"

section \<open>Statements\<close>

text \<open>
  A statement that violates a constraint or runs a trigger that raises returns the
  error and no database: the transaction is rolled back.
\<close>

subsection \<open>Users, menu items, orders and order items\<close>

text \<open>A row inserted into \<^verbatim>\<open>auth.users\<close> by the identity platform, with its trigger.\<close>

definition create_user :: "uuid \<Rightarrow> string option \<Rightarrow> db \<Rightarrow> error + db" where
  "create_user new_id full_name d =
     (if new_id \<in> set (auth_users d) then Inl UniqueViolation
      else Inr (create_profile_for_new_user new_id full_name
                  (d\<lparr>auth_users := auth_users d @ [new_id]\<rparr>)))"

text \<open>\<^verbatim>\<open>INSERT INTO menu_items\<close>, as in the seed script.\<close>

definition insert_menu_item :: "uuid \<Rightarrow> string \<Rightarrow> decimal \<Rightarrow> bool \<Rightarrow> db \<Rightarrow> error + db" where
  "insert_menu_item category_id name price available d =
     (case to_decimal_10_2 price of
        Inl e \<Rightarrow> Inl e
      | Inr pr \<Rightarrow>
          if pr < 0 then Inl CheckViolation
          else if uuid_supply d \<in> mi_id ` set (menu_items d) then Inl UniqueViolation
          else Inr (d\<lparr>menu_items := menu_items d @
                        [\<lparr>mi_id = uuid_supply d, mi_category_id = category_id, mi_name = name,
                          mi_price = pr, mi_available = available\<rparr>],
                      uuid_supply := Suc (uuid_supply d)\<rparr>))"

text \<open>
  \<^verbatim>\<open>INSERT INTO orders (user_id, status, total_amount, pickup_time, notes)\<close>, with
  \<^verbatim>\<open>pickup_code\<close> as an optional further column. The total is the number the client
  sends. Checks, in order: the column types, the before-insert trigger
  \<^verbatim>\<open>generate_pickup_code_on_insert\<close>, the \<^verbatim>\<open>CHECK\<close> on the total, the primary key,
  the unique index \<^verbatim>\<open>idx_orders_pickup_code\<close>, the foreign key to \<^verbatim>\<open>auth.users\<close>;
  then the after-insert trigger \<^verbatim>\<open>create_order_placed_notification\<close>. The result
  carries the inserted row (\<^verbatim>\<open>RETURNING\<close>).
\<close>

definition insert_order ::
  "timestamp \<Rightarrow> nat stream \<Rightarrow> uuid \<Rightarrow> order_status \<Rightarrow> decimal \<Rightarrow> timestamp option \<Rightarrow>
   string option \<Rightarrow> string option \<Rightarrow> db \<Rightarrow> (error + db \<times> order) option" where
  "insert_order now rnd user_id status total_amount pickup_time pickup_code notes d =
     (case to_decimal_10_2 total_amount of
        Inl e \<Rightarrow> Some (Inl e)
      | Inr amount \<Rightarrow>
          if (case pickup_code of None \<Rightarrow> False | Some c \<Rightarrow> 4 < length c)
          then Some (Inl StringTooLong)
          else
            (case set_pickup_code (orders d) rnd pickup_code of
               None \<Rightarrow> None
             | Some code \<Rightarrow>
                 let new = \<lparr>o_id = uuid_supply d, o_user_id = user_id, o_status = status,
                            o_total_amount = amount, o_pickup_time = pickup_time,
                            o_pickup_code = code, o_notes = notes, o_created_at = now,
                            o_updated_at = now, o_completed_at = None\<rparr>
                 in if amount < 0 then Some (Inl CheckViolation)
                    else if o_id new \<in> o_id ` set (orders d) then Some (Inl UniqueViolation)
                    else if code \<in> o_pickup_code ` set (orders d) then Some (Inl UniqueViolation)
                    else if user_id \<notin> set (auth_users d) then Some (Inl ForeignKeyViolation)
                    else Some (Inr (notify_order_placed now new
                                      (d\<lparr>orders := orders d @ [new],
                                         uuid_supply := Suc (uuid_supply d)\<rparr>), new))))"

text \<open>\<^verbatim>\<open>INSERT INTO order_items\<close> of one row, with its before-insert trigger.\<close>

definition insert_order_item ::
  "timestamp \<Rightarrow> uuid \<Rightarrow> uuid \<Rightarrow> int \<Rightarrow> decimal \<Rightarrow> string option \<Rightarrow> db \<Rightarrow> error + db" where
  "insert_order_item now order_id menu_item_id quantity unit_price special_instructions d =
     (case to_decimal_10_2 unit_price of
        Inl e \<Rightarrow> Inl e
      | Inr price \<Rightarrow>
          (case validate_menu_item_availability
                  \<lparr>oi_id = uuid_supply d, oi_order_id = order_id, oi_menu_item_id = menu_item_id,
                   oi_quantity = quantity, oi_unit_price = price,
                   oi_special_instructions = special_instructions, oi_created_at = now\<rparr> d of
             Inl e \<Rightarrow> Inl e
           | Inr new \<Rightarrow>
               if quantity < 1 \<or> price < 0 then Inl CheckViolation
               else if oi_id new \<in> oi_id ` set (order_items d) then Inl UniqueViolation
               else if order_id \<notin> o_id ` set (orders d) then Inl ForeignKeyViolation
               else if menu_item_id \<notin> mi_id ` set (menu_items d) then Inl ForeignKeyViolation
               else Inr (d\<lparr>order_items := order_items d @ [new],
                           uuid_supply := Suc (uuid_supply d)\<rparr>)))"

subsection \<open>Updates of orders\<close>

text \<open>
  \<^verbatim>\<open>UPDATE orders SET ... WHERE ...\<close>. For each row that the \<^verbatim>\<open>WHERE\<close> clause
  \<open>wh\<close> selects, the \<^verbatim>\<open>SET\<close> clause \<open>st\<close> gives the new row, which passes through
  the before-update triggers of \<^verbatim>\<open>orders\<close> in the order of their names,
  \<^verbatim>\<open>set_updated_at_orders\<close> then \<^verbatim>\<open>track_order_status_changes\<close>. No trigger
  compares the old status with the new one against a transition graph, and no
  trigger runs \<open>validate_order_total\<close>.
\<close>

fun update_each ::
  "timestamp \<Rightarrow> (order \<Rightarrow> bool) \<Rightarrow> (order \<Rightarrow> order) \<Rightarrow> order list \<Rightarrow> db \<Rightarrow> order list \<times> db"
  where
  "update_each now wh st [] d = ([], d)"
| "update_each now wh st (old # rest) d =
     (if wh old then
        (case log_order_status_change now old (update_updated_at_column now (st old)) d of
           (new, d1) \<Rightarrow>
             (case update_each now wh st rest d1 of (rest', d2) \<Rightarrow> (new # rest', d2)))
      else (case update_each now wh st rest d of (rest', d2) \<Rightarrow> (old # rest', d2)))"

text \<open>The after-update trigger \<^verbatim>\<open>create_order_ready_notification\<close>, row by row.\<close>

fun after_each :: "timestamp \<Rightarrow> (order \<times> order) list \<Rightarrow> db \<Rightarrow> db" where
  "after_each now [] d = d"
| "after_each now ((old, new) # rest) d = after_each now rest (notify_order_ready now old new d)"

text \<open>The result carries the updated rows (\<^verbatim>\<open>RETURNING\<close>).\<close>

definition update_orders ::
  "timestamp \<Rightarrow> (order \<Rightarrow> bool) \<Rightarrow> (order \<Rightarrow> order) \<Rightarrow> db \<Rightarrow> db \<times> order list" where
  "update_orders now wh st d =
     (case update_each now wh st (orders d) d of
        (rows, d1) \<Rightarrow>
          let changed = filter (\<lambda>(old, new). wh old) (zip (orders d) rows)
          in (after_each now changed (d1\<lparr>orders := rows\<rparr>), map snd changed))"

text \<open>
  \<^verbatim>\<open>UPDATE orders SET status = :new WHERE id = :id AND status = :expected\<close>, the
  staff status update (written in the query file for \<^verbatim>\<open>'preparing'\<close> and \<^verbatim>\<open>'ready'\<close>).
\<close>

definition update_status ::
  "timestamp \<Rightarrow> uuid \<Rightarrow> order_status \<Rightarrow> order_status \<Rightarrow> db \<Rightarrow> db \<times> order list" where
  "update_status now order_id expected new_status d =
     update_orders now (\<lambda>ord. o_id ord = order_id \<and> o_status ord = expected)
       (\<lambda>ord. ord\<lparr>o_status := new_status\<rparr>) d"

text \<open>
  \<^verbatim>\<open>UPDATE orders SET status = 'completed', completed_at = NOW()
  WHERE pickup_code = :code AND status = 'ready'\<close>.
\<close>

definition complete_order :: "timestamp \<Rightarrow> string \<Rightarrow> db \<Rightarrow> db \<times> order list" where
  "complete_order now code d =
     update_orders now (\<lambda>ord. o_pickup_code ord = code \<and> o_status ord = Ready)
       (\<lambda>ord. ord\<lparr>o_status := Completed, o_completed_at := Some now\<rparr>) d"

text \<open>
  \<^verbatim>\<open>UPDATE orders SET status = 'cancelled'
  WHERE id = ANY(:ids) AND status IN ('placed', 'confirmed')\<close>.
\<close>

definition cancel_orders :: "timestamp \<Rightarrow> uuid list \<Rightarrow> db \<Rightarrow> db \<times> order list" where
  "cancel_orders now ids d =
     update_orders now (\<lambda>ord. o_id ord \<in> set ids \<and> o_status ord \<in> {Placed, Confirmed})
       (\<lambda>ord. ord\<lparr>o_status := Cancelled\<rparr>) d"

subsection \<open>The staff order queue\<close>

record queue_row =
  q_id :: uuid
  q_status :: order_status
  q_pickup_time :: "timestamp option"
  q_pickup_code :: string
  q_created_at :: timestamp
  q_customer_name :: string
  q_customer_phone :: "string option"
  q_item_count :: nat
  q_total_amount :: decimal
  q_notes :: "string option"

text \<open>
  The \<^verbatim>\<open>CASE\<close> of the \<^verbatim>\<open>ORDER BY\<close> clause. It has no \<^verbatim>\<open>ELSE\<close>: for the two
  other statuses it is \<^verbatim>\<open>NULL\<close>, which an ascending sort places last (\<open>5\<close> here).
\<close>

fun status_priority :: "order_status \<Rightarrow> nat" where
  "status_priority Placed = 1"
| "status_priority Confirmed = 2"
| "status_priority Preparing = 3"
| "status_priority Ready = 4"
| "status_priority _ = 5"

text \<open>
  The queue query: orders with one of the four active statuses, joined with the
  profile of their owner, with the number of their items, sorted by status priority
  and then by \<^verbatim>\<open>created_at\<close>. The primary key of \<^verbatim>\<open>orders\<close> and the unique
  \<^verbatim>\<open>profiles.user_id\<close> make every group of the \<^verbatim>\<open>GROUP BY\<close> one pair of an order
  and its profile. The column \<^verbatim>\<open>age_minutes\<close>, computed from the clock, is left out.
  Rows with equal sort keys keep the order of the table.
\<close>

definition select_queue_row :: "db \<Rightarrow> order \<Rightarrow> profile \<Rightarrow> queue_row" where
  "select_queue_row d ord p =
     \<lparr>q_id = o_id ord, q_status = o_status ord, q_pickup_time = o_pickup_time ord,
      q_pickup_code = o_pickup_code ord, q_created_at = o_created_at ord,
      q_customer_name = pf_full_name p, q_customer_phone = pf_phone p,
      q_item_count = length (filter (\<lambda>i. oi_order_id i = o_id ord) (order_items d)),
      q_total_amount = o_total_amount ord, q_notes = o_notes ord\<rparr>"

definition queue_rows :: "db \<Rightarrow> queue_row list" where
  "queue_rows d =
     concat (map (\<lambda>ord.
         map (select_queue_row d ord)
           (filter (\<lambda>p. pf_user_id p = o_user_id ord) (profiles d)))
       (filter (\<lambda>ord. o_status ord \<in> {Placed, Confirmed, Preparing, Ready}) (orders d)))"

definition list_queue :: "db \<Rightarrow> queue_row list" where
  "list_queue d = sort_key (\<lambda>r. (status_priority (q_status r), q_created_at r)) (queue_rows d)"

section \<open>Histories of the database\<close>

datatype op =
  CreateUser uuid "string option"
  | InsertMenuItem uuid string decimal bool
  | InsertOrder timestamp "nat stream" uuid order_status decimal "timestamp option"
      "string option" "string option"
  | InsertOrderItem timestamp uuid uuid int decimal "string option"
  | UpdateStatus timestamp uuid order_status order_status
  | CompleteOrder timestamp string
  | CancelOrders timestamp "uuid list"
  | MarkNotificationsRead timestamp uuid "uuid list option"

text \<open>
  One statement in its own transaction. \<open>None\<close>: the statement never returns;
  \<open>Some (Inl e)\<close>: it fails and the database is as before.
\<close>

fun apply_op :: "db \<Rightarrow> op \<Rightarrow> (error + db) option" where
  "apply_op d (CreateUser u n) = Some (create_user u n d)"
| "apply_op d (InsertMenuItem c n p a) = Some (insert_menu_item c n p a d)"
| "apply_op d (InsertOrder now rnd u s t pt pc nt) =
     (case insert_order now rnd u s t pt pc nt d of
        None \<Rightarrow> None
      | Some (Inl e) \<Rightarrow> Some (Inl e)
      | Some (Inr (d', row)) \<Rightarrow> Some (Inr d'))"
| "apply_op d (InsertOrderItem now oid mid q p si) = Some (insert_order_item now oid mid q p si d)"
| "apply_op d (UpdateStatus now oid e s) = Some (Inr (fst (update_status now oid e s d)))"
| "apply_op d (CompleteOrder now c) = Some (Inr (fst (complete_order now c d)))"
| "apply_op d (CancelOrders now ids) = Some (Inr (fst (cancel_orders now ids d)))"
| "apply_op d (MarkNotificationsRead now u ids) =
     Some (Inr (fst (mark_notifications_read now u ids d)))"

fun run :: "db \<Rightarrow> op list \<Rightarrow> db option" where
  "run d [] = Some d"
| "run d (x # xs) =
     (case apply_op d x of
        None \<Rightarrow> None
      | Some (Inl e) \<Rightarrow> run d xs
      | Some (Inr d') \<Rightarrow> run d' xs)"

section \<open>Notions used in the statements\<close>

text \<open>
  The row that an update writes for the old row \<open>old\<close>: the \<^verbatim>\<open>SET\<close> clause, then the
  two before-update triggers.
\<close>

definition new_row :: "timestamp \<Rightarrow> (order \<Rightarrow> bool) \<Rightarrow> (order \<Rightarrow> order) \<Rightarrow> order \<Rightarrow> order" where
  "new_row now wh st old =
     (if wh old then
        (if o_status old \<noteq> o_status (st old) \<and> o_status (st old) = Completed
         then (st old)\<lparr>o_updated_at := now, o_completed_at := Some now\<rparr>
         else (st old)\<lparr>o_updated_at := now\<rparr>)
      else old)"

text \<open>The tables that no update of \<^verbatim>\<open>orders\<close> touches.\<close>

definition same_tables :: "db \<Rightarrow> db \<Rightarrow> bool" where
  "same_tables d d' =
     (auth_users d' = auth_users d \<and> profiles d' = profiles d \<and> menu_items d' = menu_items d
      \<and> order_items d' = order_items d)"

text \<open>
  What the constraints of the schema maintain: the primary key of \<^verbatim>\<open>orders\<close>, the
  unique index on \<^verbatim>\<open>pickup_code\<close>, the unique \<^verbatim>\<open>profiles.user_id\<close>, the foreign key
  from orders to users, a profile for every user, and no empty pickup code.
\<close>

definition db_inv :: "db \<Rightarrow> bool" where
  "db_inv d =
     (distinct (map o_id (orders d)) \<and> distinct (map o_pickup_code (orders d))
      \<and> distinct (map pf_user_id (profiles d))
      \<and> (\<forall>x \<in> set (orders d). o_user_id x \<in> set (auth_users d))
      \<and> (\<forall>u \<in> set (auth_users d). \<exists>p \<in> set (profiles d). pf_user_id p = u)
      \<and> [] \<notin> set (map o_pickup_code (orders d)))"

text \<open>A \<^verbatim>\<open>SET\<close> clause that assigns none of the key columns nor the total.\<close>

definition keeps_keys :: "(order \<Rightarrow> order) \<Rightarrow> bool" where
  "keeps_keys st =
     (\<forall>x. o_id (st x) = o_id x \<and> o_pickup_code (st x) = o_pickup_code x
          \<and> o_user_id (st x) = o_user_id x \<and> o_total_amount (st x) = o_total_amount x)"

text \<open>The database after a history of statements, from the empty database.\<close>

definition state_after :: "op list \<Rightarrow> db" where
  "state_after xs = (case run empty_db xs of None \<Rightarrow> empty_db | Some d \<Rightarrow> d)"

text \<open>The total of an order is within 0.05 of the sum over its items.\<close>

definition total_within_tolerance :: "db \<Rightarrow> order \<Rightarrow> bool" where
  "total_within_tolerance d x = (\<bar>o_total_amount x - items_sum d (o_id x)\<bar> \<le> 5)"

text \<open>
  The state graph of the specification, which no table, trigger or function of the
  schema contains: \<open>placed \<rightarrow> confirmed \<rightarrow> preparing \<rightarrow> ready \<rightarrow> completed\<close>, and
  \<open>cancelled\<close> from \<open>placed\<close> or \<open>confirmed\<close>.
\<close>

definition spec_legal_successor :: "order_status \<Rightarrow> order_status \<Rightarrow> bool" where
  "spec_legal_successor a b =
     ((a, b) \<in> {(Placed, Confirmed), (Confirmed, Preparing), (Preparing, Ready),
                 (Ready, Completed), (Placed, Cancelled), (Confirmed, Cancelled)})"

subsection \<open>Example histories\<close>

text \<open>
  Two customers and two menu items; Ana orders a cheeseburger and two portions of
  fries for 16.00, Luis a cheeseburger. The first draw for the second order is the
  code of the first one, so the generator draws again.
\<close>

definition lunch_ops :: "op list" where
  "lunch_ops =
     [CreateUser 1 (Some ''Ana''), CreateUser 2 (Some ''Luis''),
      InsertMenuItem 22 ''Cheeseburger'' 900 True,
      InsertMenuItem 33 ''French Fries'' 350 True,
      InsertOrder 100 (1234 ## sconst 0) 1 Placed 1600 None None None,
      InsertOrderItem 100 4 2 1 900 None,
      InsertOrderItem 100 4 3 2 350 None,
      InsertOrder 110 (1234 ## 42 ## sconst 0) 2 Placed 900 None None None,
      InsertOrderItem 110 8 2 1 900 None]"

text \<open>Staff take the first order to \<open>ready\<close>; then it is picked up.\<close>

definition ready_ops :: "op list" where
  "ready_ops =
     lunch_ops @ [UpdateStatus 120 4 Placed Confirmed, UpdateStatus 130 4 Confirmed Preparing,
                  UpdateStatus 140 4 Preparing Ready]"

definition done_ops :: "op list" where
  "done_ops = ready_ops @ [CompleteOrder 150 ''1234'']"

text \<open>
  The order placement transaction of the query file: a total of 24.50 for a
  cheeseburger, two portions of fries, a latte and a brownie.
\<close>

definition checkout_ops :: "op list" where
  "checkout_ops =
     [CreateUser 1 (Some ''Ana''),
      InsertMenuItem 22 ''Cheeseburger'' 900 True,
      InsertMenuItem 33 ''French Fries'' 350 True,
      InsertMenuItem 11 ''Latte'' 400 True,
      InsertMenuItem 44 ''Brownie'' 350 True,
      InsertOrder 100 (1234 ## sconst 0) 1 Placed 2450 (Some 130) None
        (Some ''Extra napkins please''),
      InsertOrderItem 100 5 1 1 900 (Some ''No onions''),
      InsertOrderItem 100 5 2 2 350 None,
      InsertOrderItem 100 5 3 1 400 (Some ''Extra shot''),
      InsertOrderItem 100 5 4 1 350 None]"

text \<open>A third order comes in while the first one waits at the counter.\<close>

definition queue_ops :: "op list" where
  "queue_ops = ready_ops @ [InsertOrder 150 (5555 ## sconst 0) 2 Placed 350 None None None]"

section \<open>Auxiliary facts\<close>

text \<open>
  Evaluation rules for the text helpers and the generator, the effect of an update
  on each table, and the constraints that every history of statements maintains.
\<close>

lemma replicate_numeral: "replicate (numeral k) c = c # replicate (numeral k - 1) c"
  by (simp add: numeral_eq_Suc)

lemma nat_to_text_small: "n < 10 \<Longrightarrow> nat_to_text n = [digit_char n]"
  by (subst nat_to_text.simps) simp

lemma nat_to_text_large:
  "\<not> n < 10 \<Longrightarrow> nat_to_text n = nat_to_text (n div 10) @ [digit_char (n mod 10)]"
  by (subst nat_to_text.simps) simp

lemma generate_hit:
  "\<not> code_exists os (draw_code (shd rnd)) \<Longrightarrow>
     generate_pickup_code os rnd = Some (draw_code (shd rnd))"
  by (subst generate_pickup_code.simps) simp

lemma generate_miss:
  "code_exists os (draw_code (shd rnd)) \<Longrightarrow>
     generate_pickup_code os rnd = generate_pickup_code os (stl rnd)"
  by (subst generate_pickup_code.simps) simp

text \<open>The equations that evaluate a pickup code and a history of statements.\<close>

lemmas code_eval =
  generate_hit generate_miss code_exists_def draw_code_def lpad_def nat_to_text_small
  nat_to_text_large digit_char_def replicate_numeral

lemmas run_eval =
  state_after_def empty_db_def create_user_def create_profile_for_new_user_def
  insert_menu_item_def to_decimal_10_2_def insert_order_def set_pickup_code_def
  code_eval notify_order_placed_def insert_notification_def
  insert_order_item_def validate_menu_item_availability_def Let_def update_status_def
  complete_order_def cancel_orders_def update_orders_def update_updated_at_column_def
  log_order_status_change_def insert_history_def notify_order_ready_def
  mark_notifications_read_def to_mark_def

lemma log_fst:
  "fst (log_order_status_change now old new d) =
     (if o_status old \<noteq> o_status new \<and> o_status new = Completed
      then new\<lparr>o_completed_at := Some now\<rparr> else new)"
  by (simp add: log_order_status_change_def)

lemma log_snd:
  "same_tables d (snd (log_order_status_change now old new d))"
  "orders (snd (log_order_status_change now old new d)) = orders d"
  "notifications (snd (log_order_status_change now old new d)) = notifications d"
  by (simp_all add: log_order_status_change_def insert_history_def same_tables_def)

lemma same_tables_refl: "same_tables d d"
  by (simp add: same_tables_def)

lemma same_tables_trans: "same_tables a b \<Longrightarrow> same_tables b c \<Longrightarrow> same_tables a c"
  by (simp add: same_tables_def)

lemma update_each_rows: "fst (update_each now wh st os d) = map (new_row now wh st) os"
proof (induction os arbitrary: d)
  case Nil
  show ?case by simp
next
  case (Cons old rest)
  show ?case
  proof (cases "wh old")
    case True
    obtain new d1 where l: "log_order_status_change now old (update_updated_at_column now (st old)) d = (new, d1)"
      by (cases "log_order_status_change now old (update_updated_at_column now (st old)) d")
    have "new = fst (log_order_status_change now old (update_updated_at_column now (st old)) d)"
      using l by simp
    then have n: "new = new_row now wh st old"
      using True by (simp add: log_fst new_row_def update_updated_at_column_def)
    obtain rest' d2 where r: "update_each now wh st rest d1 = (rest', d2)"
      by (cases "update_each now wh st rest d1")
    have "rest' = map (new_row now wh st) rest"
      using Cons.IH [of d1] r by simp
    then show ?thesis using True l r n by simp
  next
    case False
    obtain rest' d2 where r: "update_each now wh st rest d = (rest', d2)"
      by (cases "update_each now wh st rest d")
    have "rest' = map (new_row now wh st) rest"
      using Cons.IH [of d] r by simp
    then show ?thesis using False r by (simp add: new_row_def)
  qed
qed

lemma update_each_db:
  "same_tables d (snd (update_each now wh st os d))
   \<and> orders (snd (update_each now wh st os d)) = orders d
   \<and> notifications (snd (update_each now wh st os d)) = notifications d"
proof (induction os arbitrary: d)
  case Nil
  show ?case by (simp add: same_tables_refl)
next
  case (Cons old rest)
  show ?case
  proof (cases "wh old")
    case True
    obtain new d1 where l: "log_order_status_change now old (update_updated_at_column now (st old)) d = (new, d1)"
      by (cases "log_order_status_change now old (update_updated_at_column now (st old)) d")
    have d1: "d1 = snd (log_order_status_change now old (update_updated_at_column now (st old)) d)"
      using l by simp
    obtain rest' d2 where r: "update_each now wh st rest d1 = (rest', d2)"
      by (cases "update_each now wh st rest d1")
    have s: "snd (update_each now wh st (old # rest) d) = snd (update_each now wh st rest d1)"
      using True l r by simp
    show ?thesis
      unfolding s using Cons.IH [of d1] log_snd [where d = d and now = now and old = old and new = "update_updated_at_column now (st old)"]
      unfolding d1 [symmetric] by (auto intro: same_tables_trans)
  next
    case False
    obtain rest' d2 where r: "update_each now wh st rest d = (rest', d2)"
      by (cases "update_each now wh st rest d")
    have s: "snd (update_each now wh st (old # rest) d) = snd (update_each now wh st rest d)"
      using False r by simp
    show ?thesis unfolding s using Cons.IH [of d] by simp
  qed
qed

lemma after_each_db:
  "same_tables d (after_each now ch d) \<and> orders (after_each now ch d) = orders d
   \<and> order_status_history (after_each now ch d) = order_status_history d"
proof (induction ch arbitrary: d)
  case Nil
  show ?case by (simp add: same_tables_refl)
next
  case (Cons x rest)
  obtain old new where x: "x = (old, new)" by (cases x)
  have n: "same_tables d (notify_order_ready now old new d)
      \<and> orders (notify_order_ready now old new d) = orders d
      \<and> order_status_history (notify_order_ready now old new d) = order_status_history d"
    by (simp add: notify_order_ready_def insert_notification_def same_tables_def)
  show ?case
    unfolding x using Cons.IH [of "notify_order_ready now old new d"] n
    by (auto intro: same_tables_trans)
qed

lemma update_orders_orders:
  "orders (fst (update_orders now wh st d)) = map (new_row now wh st) (orders d)"
proof -
  obtain rows d1 where u: "update_each now wh st (orders d) d = (rows, d1)"
    by (cases "update_each now wh st (orders d) d")
  have "rows = map (new_row now wh st) (orders d)"
    using update_each_rows [of now wh st "orders d" d] u by simp
  then show ?thesis
    using u after_each_db by (simp add: update_orders_def Let_def)
qed

lemma update_orders_same_tables: "same_tables d (fst (update_orders now wh st d))"
proof -
  obtain rows d1 where u: "update_each now wh st (orders d) d = (rows, d1)"
    by (cases "update_each now wh st (orders d) d")
  have a: "same_tables d d1"
    using update_each_db [of d now wh st "orders d"] u by simp
  then have b: "same_tables d (d1\<lparr>orders := rows\<rparr>)"
    by (simp add: same_tables_def)
  show ?thesis
    using u b after_each_db [of "d1\<lparr>orders := rows\<rparr>"] same_tables_trans
    by (auto simp add: update_orders_def Let_def)
qed

lemma digit_char_digit: "d < 10 \<Longrightarrow> digit_char d \<in> set ''0123456789''"
  unfolding digit_char_def by (rule nth_mem) simp

lemma nat_to_text_digits: "set (nat_to_text n) \<subseteq> set ''0123456789''"
proof (induction n rule: nat_to_text.induct)
  case (1 n)
  show ?case
  proof (cases "n < 10")
    case True
    then show ?thesis
      using digit_char_digit [of n] by (subst nat_to_text.simps) simp
  next
    case False
    have "n mod 10 < 10" by simp
    then have "digit_char (n mod 10) \<in> set ''0123456789''" by (rule digit_char_digit)
    then show ?thesis
      using False 1 by (subst nat_to_text.simps) simp
  qed
qed

lemma concat_replicate_single: "concat (replicate k [c]) = replicate k c"
  by (induction k) simp_all

lemma lpad_zero_length: "length (lpad s 4 ''0'') = 4"
  by (simp add: lpad_def concat_replicate_single)

lemma lpad_zero_set: "set (lpad s 4 ''0'') \<subseteq> insert CHR ''0'' (set s)"
proof (cases "4 \<le> length s")
  case True
  then show ?thesis
    using set_take_subset [of 4 s] by (auto simp: lpad_def)
next
  case False
  then show ?thesis
    using set_take_subset [of "4 - length s" "replicate (4 - length s) CHR ''0''"]
    by (auto simp: lpad_def concat_replicate_single)
qed

lemma draw_code_length: "length (draw_code r) = 4"
  by (simp add: draw_code_def lpad_zero_length)

lemma draw_code_digits: "set (draw_code r) \<subseteq> set ''0123456789''"
  using lpad_zero_set [of "nat_to_text r"] nat_to_text_digits [of r]
  unfolding draw_code_def by auto

lemma generate_first:
  "(\<forall>m<n. code_exists os (draw_code (rnd !! m))) \<Longrightarrow> \<not> code_exists os (draw_code (rnd !! n))
   \<Longrightarrow> generate_pickup_code os rnd = Some (draw_code (rnd !! n))"
proof (induction n arbitrary: rnd)
  case 0
  then show ?case by (subst generate_pickup_code.simps) simp
next
  case (Suc n)
  have c0: "code_exists os (draw_code (shd rnd))"
    using Suc.prems(1) [rule_format, of 0] by simp
  have "\<forall>m<n. code_exists os (draw_code (stl rnd !! m))"
    using Suc.prems(1) by auto
  moreover have "\<not> code_exists os (draw_code (stl rnd !! n))"
    using Suc.prems(2) by simp
  ultimately have "generate_pickup_code os (stl rnd) = Some (draw_code (stl rnd !! n))"
    by (rule Suc.IH)
  then show ?case
    using c0 by (subst generate_pickup_code.simps) simp
qed

lemma generate_some:
  assumes "generate_pickup_code os rnd = Some c"
  shows "\<exists>n. c = draw_code (rnd !! n) \<and> \<not> code_exists os c
         \<and> (\<forall>m<n. code_exists os (draw_code (rnd !! m)))"
  using assms
proof (induction rule: generate_pickup_code.raw_induct [rotated 1, consumes 1])
  case (1 gen os rnd c)
  show ?case
  proof (cases "code_exists os (draw_code (shd rnd))")
    case True
    then have "gen os (stl rnd) = Some c" using 1(2) by simp
    then obtain n where n: "c = draw_code (stl rnd !! n)" "\<not> code_exists os c"
      "\<forall>m<n. code_exists os (draw_code (stl rnd !! m))"
      using 1(1) by blast
    have "\<forall>m<Suc n. code_exists os (draw_code (rnd !! m))"
    proof (intro allI impI)
      fix m assume "m < Suc n"
      then show "code_exists os (draw_code (rnd !! m))"
        using True n(3) by (cases m) auto
    qed
    then show ?thesis
      using n(1,2) by (intro exI [of _ "Suc n"]) simp
  next
    case False
    then have "c = draw_code (shd rnd)" using 1(2) by simp
    then show ?thesis using False by (intro exI [of _ 0]) simp
  qed
qed

lemma new_row_keys:
  assumes "keeps_keys st"
  shows "o_id (new_row now wh st x) = o_id x"
    and "o_pickup_code (new_row now wh st x) = o_pickup_code x"
    and "o_user_id (new_row now wh st x) = o_user_id x"
    and "o_total_amount (new_row now wh st x) = o_total_amount x"
  using assms by (simp_all add: new_row_def keeps_keys_def)

lemma update_orders_inv:
  assumes k: "keeps_keys st" and i: "db_inv d"
  shows "db_inv (fst (update_orders now wh st d))"
proof -
  let ?d = "fst (update_orders now wh st d)"
  have o: "orders ?d = map (new_row now wh st) (orders d)"
    by (rule update_orders_orders)
  have s: "same_tables d ?d"
    by (rule update_orders_same_tables)
  have 1: "map o_id (orders ?d) = map o_id (orders d)"
    unfolding o using new_row_keys(1) [OF k] by simp
  have 2: "map o_pickup_code (orders ?d) = map o_pickup_code (orders d)"
    unfolding o using new_row_keys(2) [OF k] by simp
  have 3: "map o_user_id (orders ?d) = map o_user_id (orders d)"
    unfolding o using new_row_keys(3) [OF k] by simp
  have 4: "\<forall>x \<in> set (orders ?d). o_user_id x \<in> set (auth_users d)"
  proof
    fix x assume "x \<in> set (orders ?d)"
    then have "o_user_id x \<in> set (map o_user_id (orders ?d))" by simp
    then have "o_user_id x \<in> set (map o_user_id (orders d))" unfolding 3 .
    then show "o_user_id x \<in> set (auth_users d)" using i by (auto simp: db_inv_def)
  qed
  show ?thesis
    using i s 4 unfolding db_inv_def same_tables_def 1 2 by simp
qed

lemma keeps_keys_status: "keeps_keys (\<lambda>ord. ord\<lparr>o_status := s\<rparr>)"
  by (simp add: keeps_keys_def)

lemma keeps_keys_complete: "keeps_keys (\<lambda>ord. ord\<lparr>o_status := s, o_completed_at := c\<rparr>)"
  by (simp add: keeps_keys_def)

lemma create_user_inv:
  assumes "db_inv d" and "create_user u n d = Inr d'"
  shows "db_inv d'"
proof (cases "u \<in> set (auth_users d)")
  case True
  then show ?thesis using assms by (simp add: create_user_def)
next
  case False
  show ?thesis
  proof (cases "list_ex (\<lambda>p. pf_user_id p = u) (profiles d)")
    case True
    then have "u \<in> pf_user_id ` set (profiles d)"
      by (auto simp: list_ex_iff)
    then show ?thesis
      using assms False True
      by (auto simp: create_user_def create_profile_for_new_user_def db_inv_def)
  next
    case nex: False
    then have "u \<notin> pf_user_id ` set (profiles d)"
      by (auto simp: list_ex_iff)
    then show ?thesis
      using assms False nex
      by (auto simp: create_user_def create_profile_for_new_user_def db_inv_def)
  qed
qed

lemma insert_menu_item_inv:
  assumes "db_inv d" and "insert_menu_item c n p a d = Inr d'"
  shows "db_inv d'"
  using assms
  by (auto simp: insert_menu_item_def db_inv_def split: sum.splits if_splits)

lemma insert_order_item_inv:
  assumes "db_inv d" and "insert_order_item now oid mid q p si d = Inr d'"
  shows "db_inv d'"
  using assms
  by (auto simp: insert_order_item_def db_inv_def split: sum.splits if_splits)

lemma generate_nonempty:
  assumes "generate_pickup_code os rnd = Some c"
  shows "c \<noteq> []"
proof -
  obtain n where "c = draw_code (rnd !! n)"
    using generate_some [OF assms] by blast
  then have "length c = 4" by (simp add: draw_code_length)
  then show ?thesis by auto
qed

lemma set_pickup_code_nonempty: "set_pickup_code os rnd pc = Some c \<Longrightarrow> c \<noteq> []"
  using generate_nonempty [of os rnd c]
  by (auto simp: set_pickup_code_def split: option.splits if_splits)

lemma insert_order_inv:
  assumes "db_inv d" and "insert_order now rnd u s t pt pc nt d = Some (Inr (d', row))"
  shows "db_inv d'"
proof -
  obtain c where c: "set_pickup_code (orders d) rnd pc = Some c"
    using assms(2) by (auto simp: insert_order_def split: sum.splits if_splits option.splits)
  have ne: "c \<noteq> []" using c by (rule set_pickup_code_nonempty)
  show ?thesis
    using assms c ne
    by (auto simp: insert_order_def db_inv_def Let_def notify_order_placed_def
        insert_notification_def split: sum.splits if_splits)
qed

lemma mark_notifications_read_inv:
  "db_inv d \<Longrightarrow> db_inv (fst (mark_notifications_read now u ids d))"
  by (simp add: mark_notifications_read_def db_inv_def)

lemma apply_op_inv:
  assumes "db_inv d" and "apply_op d x = Some (Inr d')"
  shows "db_inv d'"
proof (cases x)
  case (CreateUser u n)
  then show ?thesis using assms create_user_inv by simp
next
  case (InsertMenuItem c n p a)
  then show ?thesis using assms insert_menu_item_inv by simp
next
  case (InsertOrder now rnd u s t pt pc nt)
  then show ?thesis
    using assms insert_order_inv
    by (auto split: option.splits sum.splits)
next
  case (InsertOrderItem now oid mid q p si)
  then show ?thesis using assms insert_order_item_inv by simp
next
  case (UpdateStatus now oid e s)
  then show ?thesis
    using assms update_orders_inv [OF keeps_keys_status] by (auto simp: update_status_def)
next
  case (CompleteOrder now c)
  then show ?thesis
    using assms update_orders_inv [OF keeps_keys_complete] by (auto simp: complete_order_def)
next
  case (CancelOrders now ids)
  then show ?thesis
    using assms update_orders_inv [OF keeps_keys_status] by (auto simp: cancel_orders_def)
next
  case (MarkNotificationsRead now u ids)
  then show ?thesis using assms mark_notifications_read_inv by auto
qed

lemma run_inv: "db_inv d \<Longrightarrow> run d xs = Some d' \<Longrightarrow> db_inv d'"
proof (induction xs arbitrary: d)
  case Nil
  then show ?case by simp
next
  case (Cons x xs)
  show ?case
  proof (cases "apply_op d x")
    case None
    then show ?thesis using Cons.prems by simp
  next
    case (Some r)
    show ?thesis
    proof (cases r)
      case (Inl e)
      then show ?thesis using Some Cons by simp
    next
      case (Inr d1)
      then have "db_inv d1" using apply_op_inv Some Cons.prems(1) by blast
      then show ?thesis using Cons.IH [of d1] Cons.prems(2) Some Inr by simp
    qed
  qed
qed

lemma empty_db_inv: "db_inv empty_db"
  by (simp add: db_inv_def empty_db_def)

lemma reachable_inv: "run empty_db xs = Some d \<Longrightarrow> db_inv d"
  using run_inv empty_db_inv by blast

section \<open>The example histories, evaluated\<close>

lemma lunch_run: "run empty_db lunch_ops = Some (state_after lunch_ops)"
  by (simp add: lunch_ops_def run_eval)

lemma lunch_orders:
  "orders (state_after lunch_ops) =
     [\<lparr>o_id = 4, o_user_id = 1, o_status = Placed, o_total_amount = 1600,
       o_pickup_time = None, o_pickup_code = ''1234'', o_notes = None, o_created_at = 100,
       o_updated_at = 100, o_completed_at = None\<rparr>,
      \<lparr>o_id = 8, o_user_id = 2, o_status = Placed, o_total_amount = 900,
       o_pickup_time = None, o_pickup_code = ''0042'', o_notes = None, o_created_at = 110,
       o_updated_at = 110, o_completed_at = None\<rparr>]"
  by (simp add: lunch_ops_def run_eval)

lemma lunch_users: "auth_users (state_after lunch_ops) = [1, 2]"
  by (simp add: lunch_ops_def run_eval)

lemma lunch_supply: "uuid_supply (state_after lunch_ops) = 11"
  by (simp add: lunch_ops_def run_eval)

lemma ready_run: "run empty_db ready_ops = Some (state_after ready_ops)"
  by (simp add: ready_ops_def lunch_ops_def run_eval)

lemma ready_orders:
  "orders (state_after ready_ops) =
     [\<lparr>o_id = 4, o_user_id = 1, o_status = Ready, o_total_amount = 1600,
       o_pickup_time = None, o_pickup_code = ''1234'', o_notes = None, o_created_at = 100,
       o_updated_at = 140, o_completed_at = None\<rparr>,
      \<lparr>o_id = 8, o_user_id = 2, o_status = Placed, o_total_amount = 900,
       o_pickup_time = None, o_pickup_code = ''0042'', o_notes = None, o_created_at = 110,
       o_updated_at = 110, o_completed_at = None\<rparr>]"
  by (simp add: ready_ops_def lunch_ops_def run_eval)

lemma done_run: "run empty_db done_ops = Some (state_after done_ops)"
  by (simp add: done_ops_def ready_ops_def lunch_ops_def run_eval)

lemma done_orders:
  "orders (state_after done_ops) =
     [\<lparr>o_id = 4, o_user_id = 1, o_status = Completed, o_total_amount = 1600,
       o_pickup_time = None, o_pickup_code = ''1234'', o_notes = None, o_created_at = 100,
       o_updated_at = 150, o_completed_at = Some 150\<rparr>,
      \<lparr>o_id = 8, o_user_id = 2, o_status = Placed, o_total_amount = 900,
       o_pickup_time = None, o_pickup_code = ''0042'', o_notes = None, o_created_at = 110,
       o_updated_at = 110, o_completed_at = None\<rparr>]"
  by (simp add: done_ops_def ready_ops_def lunch_ops_def run_eval)

lemma done_users: "auth_users (state_after done_ops) = [1, 2]"
  by (simp add: done_ops_def ready_ops_def lunch_ops_def run_eval)

lemma done_supply: "uuid_supply (state_after done_ops) = 16"
  by (simp add: done_ops_def ready_ops_def lunch_ops_def run_eval)


section \<open>Pickup codes\<close>

lemma distinct_map_neq:
  assumes "distinct (map f xs)" and "a \<in> set xs" and "b \<in> set xs" and "a \<noteq> b"
  shows "f a \<noteq> f b"
  using assms by (meson distinct_map inj_on_def)

text \<open>
  Claim C2. After every history of statements, the pickup codes of the orders whose
  status is neither \<open>completed\<close> nor \<open>cancelled\<close> are pairwise distinct: the list of
  these codes has no repetition, and two such orders with different ids have
  different codes.
\<close>

theorem active_pickup_codes_distinct:
  assumes "run empty_db xs = Some d"
  shows "distinct (map o_pickup_code
                    (filter (\<lambda>x. o_status x \<notin> {Completed, Cancelled}) (orders d)))
         \<and> (\<forall>a \<in> set (orders d). \<forall>b \<in> set (orders d).
               o_id a \<noteq> o_id b \<longrightarrow> o_status a \<notin> {Completed, Cancelled} \<longrightarrow>
               o_status b \<notin> {Completed, Cancelled} \<longrightarrow> o_pickup_code a \<noteq> o_pickup_code b)"
proof -
  have "db_inv d" using assms by (rule reachable_inv)
  then have dc: "distinct (map o_pickup_code (orders d))"
    by (simp add: db_inv_def)
  have 1: "distinct (map o_pickup_code
                      (filter (\<lambda>x. o_status x \<notin> {Completed, Cancelled}) (orders d)))"
    using dc by (rule distinct_map_filter)
  have 2: "o_pickup_code a \<noteq> o_pickup_code b"
    if "a \<in> set (orders d)" "b \<in> set (orders d)" "o_id a \<noteq> o_id b" for a b
  proof -
    have "a \<noteq> b" using that(3) by auto
    then show ?thesis using distinct_map_neq [OF dc that(1,2)] by simp
  qed
  show ?thesis using 1 2 by blast
qed

theorem active_pickup_codes_distinct_witness:
  "run empty_db lunch_ops = Some (state_after lunch_ops)
   \<and> map o_status (orders (state_after lunch_ops)) = [Placed, Placed]
   \<and> map o_pickup_code (orders (state_after lunch_ops)) = [''1234'', ''0042'']
   \<and> distinct (map o_pickup_code
        (filter (\<lambda>x. o_status x \<notin> {Completed, Cancelled}) (orders (state_after lunch_ops))))"
proof -
  have "distinct (map o_pickup_code
        (filter (\<lambda>x. o_status x \<notin> {Completed, Cancelled}) (orders (state_after lunch_ops))))"
    using active_pickup_codes_distinct [OF lunch_run] by blast
  then show ?thesis
    using lunch_run by (simp add: lunch_orders)
qed

text \<open>
  Claim C10. The unique index covers every order, whatever its status: after every
  history the pickup codes of all orders are pairwise distinct; an insert that gives
  the code of an existing order, completed and cancelled ones included, fails; and
  since \<open>generate_pickup_code\<close> looks at active orders only, it returns the code of a
  completed or cancelled order when that code is drawn, and the insert then fails
  too.
\<close>

theorem pickup_codes_globally_unique:
  assumes "run empty_db xs = Some d"
  shows "distinct (map o_pickup_code (orders d))
         \<and> (\<forall>a \<in> set (orders d). \<forall>b \<in> set (orders d).
               o_id a \<noteq> o_id b \<longrightarrow> o_pickup_code a \<noteq> o_pickup_code b)
         \<and> (\<forall>x \<in> set (orders d).
               \<exists>e. insert_order now rnd u s t pt (Some (o_pickup_code x)) nt d = Some (Inl e))
         \<and> (\<forall>x \<in> set (orders d).
               o_status x \<in> {Completed, Cancelled} \<longrightarrow> draw_code (shd rnd) = o_pickup_code x \<longrightarrow>
               generate_pickup_code (orders d) rnd = Some (o_pickup_code x)
               \<and> (\<exists>e. insert_order now rnd u s t pt None nt d = Some (Inl e)))"
proof -
  have inv: "db_inv d" using assms by (rule reachable_inv)
  then have dc: "distinct (map o_pickup_code (orders d))"
    by (simp add: db_inv_def)
  have ne: "o_pickup_code x \<noteq> []" if "x \<in> set (orders d)" for x
    using inv that by (force simp: db_inv_def)
  have 2: "o_pickup_code a \<noteq> o_pickup_code b"
    if "a \<in> set (orders d)" "b \<in> set (orders d)" "o_id a \<noteq> o_id b" for a b
  proof -
    have "a \<noteq> b" using that(3) by auto
    then show ?thesis using distinct_map_neq [OF dc that(1,2)] by simp
  qed
  have 3: "\<exists>e. insert_order now rnd u s t pt (Some (o_pickup_code x)) nt d = Some (Inl e)"
    if "x \<in> set (orders d)" for x
    using ne [OF that] that
    by (simp add: insert_order_def set_pickup_code_def Let_def split: sum.splits)
  have 4: "generate_pickup_code (orders d) rnd = Some (o_pickup_code x)
           \<and> (\<exists>e. insert_order now rnd u s t pt None nt d = Some (Inl e))"
    if x: "x \<in> set (orders d)" and t: "o_status x \<in> {Completed, Cancelled}"
      and c: "draw_code (shd rnd) = o_pickup_code x" for x
  proof -
    have "\<not> code_exists (orders d) (o_pickup_code x)"
    proof
      assume "code_exists (orders d) (o_pickup_code x)"
      then obtain y where y: "y \<in> set (orders d)" "o_pickup_code y = o_pickup_code x"
        "o_status y \<notin> {Completed, Cancelled}"
        by (auto simp: code_exists_def list_ex_iff)
      have "y \<noteq> x" using y(3) t by auto
      then show False using distinct_map_neq [OF dc y(1) x] y(2) by simp
    qed
    then have g: "generate_pickup_code (orders d) rnd = Some (o_pickup_code x)"
      using c by (subst generate_pickup_code.simps) simp
    have "\<exists>e. insert_order now rnd u s t pt None nt d = Some (Inl e)"
      using g x by (simp add: insert_order_def set_pickup_code_def Let_def split: sum.splits)
    then show ?thesis using g by simp
  qed
  show ?thesis using dc 2 3 4 by blast
qed

theorem pickup_codes_globally_unique_witness:
  "run empty_db done_ops = Some (state_after done_ops)
   \<and> map o_status (orders (state_after done_ops)) = [Completed, Placed]
   \<and> map o_pickup_code (orders (state_after done_ops)) = [''1234'', ''0042'']
   \<and> distinct (map o_pickup_code (orders (state_after done_ops)))
   \<and> generate_pickup_code (orders (state_after done_ops)) (1234 ## sconst 0) = Some ''1234''
   \<and> insert_order 160 (1234 ## sconst 0) 1 Placed 500 None None None (state_after done_ops)
       = Some (Inl UniqueViolation)
   \<and> insert_order 160 (sconst 0) 1 Placed 500 None (Some ''1234'') None (state_after done_ops)
       = Some (Inl UniqueViolation)"
proof -
  have "distinct (map o_pickup_code (orders (state_after done_ops)))"
    using pickup_codes_globally_unique [OF done_run] by blast
  moreover have "generate_pickup_code (orders (state_after done_ops)) (1234 ## sconst 0)
                 = Some ''1234''"
    by (simp add: done_orders code_eval)
  moreover have "insert_order 160 (1234 ## sconst 0) 1 Placed 500 None None None
                   (state_after done_ops) = Some (Inl UniqueViolation)"
    by (simp add: insert_order_def set_pickup_code_def code_eval to_decimal_10_2_def
        done_orders done_users done_supply)
  moreover have "insert_order 160 (sconst 0) 1 Placed 500 None (Some ''1234'') None
                   (state_after done_ops) = Some (Inl UniqueViolation)"
    by (simp add: insert_order_def set_pickup_code_def to_decimal_10_2_def
        done_orders done_users done_supply)
  ultimately show ?thesis
    using done_run by (simp add: done_orders)
qed

section \<open>The pickup code allocator\<close>

lemma nat_to_text_length: "n < 10 ^ k \<Longrightarrow> 0 < k \<Longrightarrow> length (nat_to_text n) \<le> k"
proof (induction n arbitrary: k rule: nat_to_text.induct)
  case (1 n)
  show ?case
  proof (cases "n < 10")
    case True
    then show ?thesis using 1(3) by (simp add: nat_to_text_small)
  next
    case False
    obtain j where k: "k = Suc j" using 1(3) by (cases k) auto
    have "j \<noteq> 0" using False 1(2) k by (cases j) auto
    then have j: "0 < j" by simp
    have "n div 10 < 10 ^ j" using 1(2) k by (simp add: less_mult_imp_div_less mult.commute)
    then have "length (nat_to_text (n div 10)) \<le> j" using 1(1) [OF False _ j] by simp
    then show ?thesis using False k by (simp add: nat_to_text_large)
  qed
qed

lemma draw_code_padded:
  assumes "r < 10000"
  shows "draw_code r = replicate (4 - length (nat_to_text r)) CHR ''0'' @ nat_to_text r"
proof -
  have "r < 10 ^ 4" using assms by simp
  then have "length (nat_to_text r) \<le> 4" by (rule nat_to_text_length) simp
  then show ?thesis
    by (cases "length (nat_to_text r) = 4") (simp_all add: draw_code_def lpad_def concat_replicate_single)
qed

lemma generate_returns:
  assumes "\<not> code_exists os (draw_code (rnd !! n))"
  shows "generate_pickup_code os rnd \<noteq> None"
proof -
  define m where "m = (LEAST i. \<not> code_exists os (draw_code (rnd !! i)))"
  have a: "\<not> code_exists os (draw_code (rnd !! m))"
    unfolding m_def using assms by (rule LeastI)
  have b: "\<forall>i<m. code_exists os (draw_code (rnd !! i))"
    unfolding m_def using not_less_Least by blast
  have "generate_pickup_code os rnd = Some (draw_code (rnd !! m))"
    using b a by (rule generate_first)
  then show ?thesis by simp
qed

text \<open>
  Claim C7. \<open>generate_pickup_code\<close> draws a code, checks it against the orders whose
  status is neither \<open>completed\<close> nor \<open>cancelled\<close>, and draws again on a collision.
  What it returns is the code of the first draw that does not collide: four
  characters, all digits, the code of no active order. It returns as soon as some
  draw does not collide, and only then. A draw below 10000 gives its decimal digits
  with zeros in front.
\<close>

theorem generate_pickup_code_result:
  "(generate_pickup_code os rnd = Some c \<longrightarrow>
      length c = 4 \<and> set c \<subseteq> set ''0123456789''
      \<and> (\<forall>x \<in> set os. o_status x \<notin> {Completed, Cancelled} \<longrightarrow> o_pickup_code x \<noteq> c)
      \<and> (\<exists>n. c = draw_code (rnd !! n) \<and> (\<forall>m<n. code_exists os (draw_code (rnd !! m)))))
   \<and> (\<not> code_exists os (draw_code (rnd !! n)) \<longrightarrow> generate_pickup_code os rnd \<noteq> None)
   \<and> ((\<forall>k. code_exists os (draw_code (rnd !! k))) \<longrightarrow> generate_pickup_code os rnd = None)
   \<and> (r < 10000 \<longrightarrow>
        draw_code r = replicate (4 - length (nat_to_text r)) CHR ''0'' @ nat_to_text r)"
proof -
  have 1: "length c = 4 \<and> set c \<subseteq> set ''0123456789''
      \<and> (\<forall>x \<in> set os. o_status x \<notin> {Completed, Cancelled} \<longrightarrow> o_pickup_code x \<noteq> c)
      \<and> (\<exists>n. c = draw_code (rnd !! n) \<and> (\<forall>m<n. code_exists os (draw_code (rnd !! m))))"
    if g: "generate_pickup_code os rnd = Some c"
  proof -
    obtain i where i: "c = draw_code (rnd !! i)" "\<not> code_exists os c"
      "\<forall>m<i. code_exists os (draw_code (rnd !! m))"
      using generate_some [OF g] by blast
    have "length c = 4" using i(1) by (simp add: draw_code_length)
    moreover have "set c \<subseteq> set ''0123456789''"
      unfolding i(1) by (rule draw_code_digits)
    moreover have "\<forall>x \<in> set os. o_status x \<notin> {Completed, Cancelled} \<longrightarrow> o_pickup_code x \<noteq> c"
      using i(2) by (auto simp: code_exists_def list_ex_iff)
    ultimately show ?thesis using i(1,3) by blast
  qed
  have 3: "generate_pickup_code os rnd = None"
    if all: "\<forall>k. code_exists os (draw_code (rnd !! k))"
  proof (cases "generate_pickup_code os rnd")
    case None
    then show ?thesis .
  next
    case (Some c')
    then obtain i where "c' = draw_code (rnd !! i)" "\<not> code_exists os c'"
      using generate_some by blast
    then show ?thesis using all by simp
  qed
  show ?thesis
    using 1 3 generate_returns [of os rnd n] draw_code_padded [of r] by blast
qed

theorem generate_pickup_code_result_witness:
  "generate_pickup_code (orders (state_after lunch_ops)) (1234 ## 77 ## sconst 0) = Some ''0077''
   \<and> map o_pickup_code (orders (state_after lunch_ops)) = [''1234'', ''0042'']
   \<and> code_exists (orders (state_after lunch_ops)) (draw_code 1234)
   \<and> length ''0077'' = 4 \<and> set ''0077'' \<subseteq> set ''0123456789''
   \<and> generate_pickup_code (orders (state_after lunch_ops)) (sconst 1234) = None
   \<and> generate_pickup_code (orders (state_after lunch_ops)) (7 ## sconst 1234) \<noteq> None
   \<and> draw_code 7 = replicate (4 - length (nat_to_text 7)) CHR ''0'' @ nat_to_text 7
   \<and> draw_code 7 = ''0007''"
proof -
  let ?os = "orders (state_after lunch_ops)"
  have g: "generate_pickup_code ?os (1234 ## 77 ## sconst 0) = Some ''0077''"
    by (simp add: lunch_orders code_eval)
  have c: "code_exists ?os (draw_code 1234)"
    by (simp add: lunch_orders code_eval)
  have a: "\<forall>k. code_exists ?os (draw_code (sconst 1234 !! k))"
    using c by simp
  have n: "\<not> code_exists ?os (draw_code ((7 ## sconst 1234) !! 0))"
    by (simp add: lunch_orders code_eval)
  have s: "(7::nat) < 10000" by simp
  note t = generate_pickup_code_result [of ?os "1234 ## 77 ## sconst 0" "''0077''" 0 7]
  note t' = generate_pickup_code_result [of ?os "sconst 1234" "''0077''" 0 7]
  note t'' = generate_pickup_code_result [of ?os "7 ## sconst 1234" "''0077''" 0 7]
  have "length ''0077'' = 4 \<and> set ''0077'' \<subseteq> set ''0123456789''"
    using t g by blast
  moreover have "generate_pickup_code ?os (sconst 1234) = None"
    using t' a by blast
  moreover have "generate_pickup_code ?os (7 ## sconst 1234) \<noteq> None"
    using t'' n by blast
  moreover have "draw_code 7 = replicate (4 - length (nat_to_text 7)) CHR ''0'' @ nat_to_text 7"
    using t s by blast
  moreover have "draw_code 7 = ''0007''"
    by (simp add: code_eval)
  ultimately show ?thesis
    using g c by (simp add: lunch_orders)
qed

section \<open>Pickup verification\<close>

lemma filter_key_at_most_one:
  "distinct (map f xs) \<Longrightarrow> length (filter (\<lambda>x. f x = c \<and> P x) xs) \<le> 1"
proof (induction xs)
  case Nil
  show ?case by simp
next
  case (Cons a xs)
  show ?case
  proof (cases "f a = c")
    case True
    then have "c \<notin> f ` set xs" using Cons.prems by auto
    then have "filter (\<lambda>x. f x = c \<and> P x) xs = []"
      by (auto simp: filter_empty_conv)
    then show ?thesis by simp
  next
    case False
    then show ?thesis using Cons by simp
  qed
qed

text \<open>
  Claim C4. \<open>verify_pickup_code\<close> returns a row exactly when some order has the
  code and the status \<open>ready\<close>, and every row it returns is the summary of such an
  order. When no order has the code, or the orders that have it are in any other
  status, the result is the empty table, the same in both cases. After any history
  of statements at most one row is returned.
\<close>

theorem verify_pickup_code_ready_only:
  "(verify_pickup_code d code \<noteq> []) =
     (\<exists>x \<in> set (orders d). o_pickup_code x = code \<and> o_status x = Ready)
   \<and> ((\<forall>x \<in> set (orders d). o_pickup_code x = code \<longrightarrow> o_status x \<noteq> Ready) \<longrightarrow>
        verify_pickup_code d code = [])
   \<and> (\<forall>row \<in> set (verify_pickup_code d code).
        \<exists>x \<in> set (orders d). o_pickup_code x = code \<and> o_status x = Ready
          \<and> row = (o_id x, o_user_id x, ''ready'', o_total_amount x, o_created_at x))
   \<and> (run empty_db xs = Some d \<longrightarrow> length (verify_pickup_code d code) \<le> 1)"
proof -
  have 1: "(verify_pickup_code d code \<noteq> []) =
     (\<exists>x \<in> set (orders d). o_pickup_code x = code \<and> o_status x = Ready)"
    by (auto simp: verify_pickup_code_def filter_empty_conv)
  have 3: "\<forall>row \<in> set (verify_pickup_code d code).
        \<exists>x \<in> set (orders d). o_pickup_code x = code \<and> o_status x = Ready
          \<and> row = (o_id x, o_user_id x, ''ready'', o_total_amount x, o_created_at x)"
    by (auto simp: verify_pickup_code_def)
  have 4: "length (verify_pickup_code d code) \<le> 1" if "run empty_db xs = Some d"
  proof -
    have "db_inv d" using that by (rule reachable_inv)
    then have "distinct (map o_pickup_code (orders d))" by (simp add: db_inv_def)
    then show ?thesis
      unfolding verify_pickup_code_def length_map by (rule filter_key_at_most_one)
  qed
  show ?thesis using 1 3 4 by blast
qed

theorem verify_pickup_code_ready_only_witness:
  "run empty_db ready_ops = Some (state_after ready_ops)
   \<and> length (verify_pickup_code (state_after ready_ops) ''1234'') \<le> 1
   \<and> verify_pickup_code (state_after ready_ops) ''1234'' = [(4, 1, ''ready'', 1600, 100)]
   \<and> verify_pickup_code (state_after ready_ops) ''0042'' = []
   \<and> verify_pickup_code (state_after ready_ops) ''9999'' = []
   \<and> verify_pickup_code (state_after done_ops) ''1234'' = []"
proof -
  have "length (verify_pickup_code (state_after ready_ops) ''1234'') \<le> 1"
    using verify_pickup_code_ready_only [of "state_after ready_ops" "''1234''" ready_ops] ready_run
    by blast
  moreover have "verify_pickup_code (state_after ready_ops) ''1234'' = [(4, 1, ''ready'', 1600, 100)]"
    by (simp add: verify_pickup_code_def ready_orders)
  moreover have "verify_pickup_code (state_after ready_ops) ''0042'' = []"
    by (simp add: verify_pickup_code_def ready_orders)
  moreover have "verify_pickup_code (state_after ready_ops) ''9999'' = []"
    by (simp add: verify_pickup_code_def ready_orders)
  moreover have "verify_pickup_code (state_after done_ops) ''1234'' = []"
    by (simp add: verify_pickup_code_def done_orders)
  ultimately show ?thesis using ready_run by simp
qed

section \<open>Notifications\<close>

lemma to_mark_iff:
  "to_mark u ids n =
     (n_user_id n = u \<and> (case ids of None \<Rightarrow> True | Some l \<Rightarrow> n_id n \<in> set l)
      \<and> n_read_at n = None)"
  by (cases ids) (simp_all add: to_mark_def)

lemma ready_notifications:
  "map (\<lambda>n. (n_id n, n_user_id n, n_type n, n_read_at n)) (notifications (state_after ready_ops))
     = [(5, 1, Order_placed, None), (9, 2, Order_placed, None), (14, 1, Order_ready, None)]"
  by (simp add: ready_ops_def lunch_ops_def run_eval)

text \<open>
  Claim C9. \<open>mark_notifications_read\<close> sets \<open>read_at\<close> on the unread notifications
  of the user, all of them or those whose id is in the given list, and on no other
  row; it returns their number; afterwards none of them is unread; and a second call
  with the same arguments, at whatever time, changes nothing and returns 0.
\<close>

theorem mark_notifications_read_idempotent:
  assumes "mark_notifications_read now u ids d = (d1, k)"
  shows "k = length (filter (\<lambda>n. n_user_id n = u
                \<and> (case ids of None \<Rightarrow> True | Some l \<Rightarrow> n_id n \<in> set l)
                \<and> n_read_at n = None) (notifications d))
         \<and> notifications d1 =
             map (\<lambda>n. if n_user_id n = u
                        \<and> (case ids of None \<Rightarrow> True | Some l \<Rightarrow> n_id n \<in> set l)
                        \<and> n_read_at n = None
                     then n\<lparr>n_read_at := Some now\<rparr> else n) (notifications d)
         \<and> d1 = d\<lparr>notifications := notifications d1\<rparr>
         \<and> (\<forall>n \<in> set (notifications d1).
               n_user_id n = u \<longrightarrow> (case ids of None \<Rightarrow> True | Some l \<Rightarrow> n_id n \<in> set l) \<longrightarrow>
               n_read_at n \<noteq> None)
         \<and> mark_notifications_read later u ids d1 = (d1, 0)"
proof -
  have k: "k = length (filter (to_mark u ids) (notifications d))"
    and d1: "d1 = d\<lparr>notifications :=
        map (\<lambda>n. if to_mark u ids n then n\<lparr>n_read_at := Some now\<rparr> else n) (notifications d)\<rparr>"
    using assms by (simp_all add: mark_notifications_read_def)
  have n1: "notifications d1 =
      map (\<lambda>n. if to_mark u ids n then n\<lparr>n_read_at := Some now\<rparr> else n) (notifications d)"
    by (subst d1) simp
  have none: "\<not> to_mark u ids n" if "n \<in> set (notifications d1)" for n
  proof -
    define f where "f = (\<lambda>n. if to_mark u ids n then n\<lparr>n_read_at := Some now\<rparr> else n)"
    have "n \<in> f ` set (notifications d)"
      using that n1 by (simp add: f_def)
    then obtain n0 where "n = f n0" by blast
    then show ?thesis
      by (cases "to_mark u ids n0") (simp_all add: f_def to_mark_iff)
  qed
  have f0: "filter (to_mark u ids) (notifications d1) = []"
    using none by (auto simp: filter_empty_conv)
  have m0: "map (\<lambda>n. if to_mark u ids n then n\<lparr>n_read_at := Some later\<rparr> else n) (notifications d1)
            = notifications d1"
    using none by (intro map_idI) simp
  have 4: "\<forall>n \<in> set (notifications d1).
             n_user_id n = u \<longrightarrow> (case ids of None \<Rightarrow> True | Some l \<Rightarrow> n_id n \<in> set l) \<longrightarrow>
             n_read_at n \<noteq> None"
    using none by (auto simp: to_mark_iff)
  have 5: "mark_notifications_read later u ids d1 = (d1, 0)"
    by (simp add: mark_notifications_read_def f0 m0)
  have 3: "d1 = d\<lparr>notifications := notifications d1\<rparr>"
    by (subst (1 2) d1) simp
  show ?thesis
    using k n1 3 4 5 unfolding to_mark_iff by blast
qed

theorem mark_notifications_read_idempotent_witness:
  "snd (mark_notifications_read 200 1 None (state_after ready_ops)) = 2
   \<and> map (\<lambda>n. (n_id n, n_read_at n))
        (notifications (fst (mark_notifications_read 200 1 None (state_after ready_ops))))
       = [(5, Some 200), (9, None), (14, Some 200)]
   \<and> mark_notifications_read 300 1 None
        (fst (mark_notifications_read 200 1 None (state_after ready_ops)))
       = (fst (mark_notifications_read 200 1 None (state_after ready_ops)), 0)
   \<and> snd (mark_notifications_read 200 1 (Some [14, 9]) (state_after ready_ops)) = 1"
proof -
  let ?r = "mark_notifications_read 200 1 None (state_after ready_ops)"
  have e: "mark_notifications_read 200 1 None (state_after ready_ops) = (fst ?r, snd ?r)"
    by simp
  note t = mark_notifications_read_idempotent [OF e, of 300]
  have i: "mark_notifications_read 300 1 None (fst ?r) = (fst ?r, 0)"
    using t by blast
  have 1: "snd ?r = 2"
    by (simp add: ready_ops_def lunch_ops_def run_eval)
  have 2: "map (\<lambda>n. (n_id n, n_read_at n)) (notifications (fst ?r))
       = [(5, Some 200), (9, None), (14, Some 200)]"
    by (simp add: ready_ops_def lunch_ops_def run_eval)
  have 4: "snd (mark_notifications_read 200 1 (Some [14, 9]) (state_after ready_ops)) = 1"
    by (simp add: ready_ops_def lunch_ops_def run_eval)
  show ?thesis using 1 2 i 4 by simp
qed

section \<open>Status updates\<close>

lemma update_each_no_match:
  "\<forall>x \<in> set os. \<not> wh x \<Longrightarrow> update_each now wh st os d = (os, d)"
  by (induction os) simp_all

lemma update_each_same_status:
  "\<forall>x \<in> set os. wh x \<longrightarrow> o_status (st x) = o_status x \<Longrightarrow>
     snd (update_each now wh st os d) = d"
proof (induction os)
  case Nil
  show ?case by simp
next
  case (Cons old rest)
  then have r: "snd (update_each now wh st rest d) = d" by simp
  obtain rest' d2 where u: "update_each now wh st rest d = (rest', d2)"
    by (cases "update_each now wh st rest d")
  have d2: "d2 = d" using r u by simp
  show ?case
  proof (cases "wh old")
    case True
    then have "o_status (st old) = o_status old" using Cons.prems by simp
    then have "log_order_status_change now old (update_updated_at_column now (st old)) d
               = (update_updated_at_column now (st old), d)"
      by (simp add: log_order_status_change_def update_updated_at_column_def)
    then show ?thesis using True u d2 by simp
  next
    case False
    then show ?thesis using u d2 by simp
  qed
qed

lemma returning_rows:
  "map snd (filter (\<lambda>(old, new). wh old) (zip os (map f os))) = map f (filter wh os)"
  by (induction os) simp_all

lemma update_orders_returning:
  "snd (update_orders now wh st d) = map (new_row now wh st) (filter wh (orders d))"
proof -
  obtain rows d1 where u: "update_each now wh st (orders d) d = (rows, d1)"
    by (cases "update_each now wh st (orders d) d")
  have "rows = map (new_row now wh st) (orders d)"
    using update_each_rows [of now wh st "orders d" d] u by simp
  then show ?thesis
    using u by (simp add: update_orders_def Let_def returning_rows)
qed

lemma after_each_same_status:
  "\<forall>(old, new) \<in> set ch. o_status old = o_status new \<Longrightarrow> after_each now ch d = d"
  by (induction ch) (auto simp: notify_order_ready_def)

lemma update_orders_same_status:
  assumes "\<forall>x. wh x \<longrightarrow> o_status (st x) = o_status x"
  shows "update_orders now wh st d =
           (d\<lparr>orders := map (new_row now wh st) (orders d)\<rparr>,
            map (new_row now wh st) (filter wh (orders d)))"
proof -
  obtain rows d1 where u: "update_each now wh st (orders d) d = (rows, d1)"
    by (cases "update_each now wh st (orders d) d")
  have rows: "rows = map (new_row now wh st) (orders d)"
    using update_each_rows [of now wh st "orders d" d] u by simp
  have d1: "d1 = d"
    using update_each_same_status [of "orders d" wh st now d] assms u by simp
  have "\<forall>(old, new) \<in> set (filter (\<lambda>(old, new). wh old) (zip (orders d) rows)).
          o_status old = o_status new"
    unfolding rows using assms by (auto simp: zip_map2 zip_same new_row_def)
  then have "after_each now (filter (\<lambda>(old, new). wh old) (zip (orders d) rows))
               (d\<lparr>orders := rows\<rparr>) = d\<lparr>orders := rows\<rparr>"
    by (rule after_each_same_status)
  then have f: "fst (update_orders now wh st d) = d\<lparr>orders := rows\<rparr>"
    using u d1 by (simp add: update_orders_def Let_def)
  show ?thesis
    using f update_orders_returning [of now wh st d] unfolding rows
    by (simp add: prod_eq_iff)
qed

lemma update_orders_no_match:
  assumes "\<forall>x \<in> set (orders d). \<not> wh x"
  shows "update_orders now wh st d = (d, [])"
proof -
  have u: "update_each now wh st (orders d) d = (orders d, d)"
    using assms by (rule update_each_no_match)
  have "filter (\<lambda>(old, new). wh old) (zip (orders d) (orders d)) = []"
    using assms by (auto simp: filter_empty_conv dest: set_zip_leftD)
  then show ?thesis
    using u by (simp add: update_orders_def Let_def)
qed

text \<open>
  Claim C6, as amended. An update to the status the order already has succeeds and
  returns the row; no history row and no notification is written; and the row keeps
  every column but \<open>updated_at\<close>, which the trigger \<open>set_updated_at_orders\<close> sets to
  the time of the statement.
\<close>

theorem same_status_update_touches_updated_at:
  "update_status now oid s s d =
     (d\<lparr>orders := map (\<lambda>x. if o_id x = oid \<and> o_status x = s then x\<lparr>o_updated_at := now\<rparr> else x)
                    (orders d)\<rparr>,
      map (\<lambda>x. x\<lparr>o_updated_at := now\<rparr>) (filter (\<lambda>x. o_id x = oid \<and> o_status x = s) (orders d)))
   \<and> order_status_history (fst (update_status now oid s s d)) = order_status_history d
   \<and> notifications (fst (update_status now oid s s d)) = notifications d"
proof -
  let ?wh = "\<lambda>x. o_id x = oid \<and> o_status x = s"
  let ?st = "\<lambda>x. x\<lparr>o_status := s\<rparr>"
  have a: "\<forall>x. ?wh x \<longrightarrow> o_status (?st x) = o_status x" by simp
  have n: "new_row now ?wh ?st x = (if ?wh x then x\<lparr>o_updated_at := now\<rparr> else x)" for x
    by (simp add: new_row_def)
  have m: "map (new_row now ?wh ?st) (filter ?wh (orders d))
           = map (\<lambda>x. x\<lparr>o_updated_at := now\<rparr>) (filter ?wh (orders d))"
    by (rule map_cong) (simp_all add: new_row_def)
  have "update_status now oid s s d =
     (d\<lparr>orders := map (\<lambda>x. if ?wh x then x\<lparr>o_updated_at := now\<rparr> else x) (orders d)\<rparr>,
      map (\<lambda>x. x\<lparr>o_updated_at := now\<rparr>) (filter ?wh (orders d)))"
    unfolding update_status_def update_orders_same_status [OF a] m using n by simp
  then show ?thesis by simp
qed

theorem same_status_update_touches_updated_at_witness:
  "snd (update_status 200 4 Placed Placed (state_after lunch_ops)) =
     [\<lparr>o_id = 4, o_user_id = 1, o_status = Placed, o_total_amount = 1600,
       o_pickup_time = None, o_pickup_code = ''1234'', o_notes = None, o_created_at = 100,
       o_updated_at = 200, o_completed_at = None\<rparr>]
   \<and> order_status_history (fst (update_status 200 4 Placed Placed (state_after lunch_ops)))
       = order_status_history (state_after lunch_ops)"
  using same_status_update_touches_updated_at [of 200 4 Placed "state_after lunch_ops"]
  by (simp add: lunch_orders)

text \<open>
  An order placed at time 100 and updated to \<open>placed\<close> again at time 200: its
  \<open>updated_at\<close> moves from 100 to 200.
\<close>

theorem same_status_update_counterexample:
  "map o_updated_at (orders (state_after lunch_ops)) = [100, 110]
   \<and> map o_updated_at (orders (fst (update_status 200 4 Placed Placed (state_after lunch_ops))))
       = [200, 110]
   \<and> orders (fst (update_status 200 4 Placed Placed (state_after lunch_ops)))
       \<noteq> orders (state_after lunch_ops)"
  by (simp add: update_status_def update_orders_orders new_row_def lunch_orders)

text \<open>
  Claim C3, as amended. The status update consults no state graph and has no error
  for an illegal transition. When no order has the id with the expected status,
  nothing is updated and the database is as before. When an order has them, it
  takes the requested status, whichever of the six it is, and the statement
  returns the row.
\<close>

theorem update_status_checks_no_graph:
  "((\<forall>x \<in> set (orders d). o_id x = oid \<longrightarrow> o_status x \<noteq> e) \<longrightarrow>
      update_status now oid e s d = (d, []))
   \<and> orders (fst (update_status now oid e s d)) =
       map (\<lambda>x. if o_id x = oid \<and> o_status x = e
                then x\<lparr>o_status := s, o_updated_at := now,
                       o_completed_at := (if e \<noteq> s \<and> s = Completed then Some now
                                          else o_completed_at x)\<rparr>
                else x) (orders d)
   \<and> snd (update_status now oid e s d) =
       map (\<lambda>x. x\<lparr>o_status := s, o_updated_at := now,
                   o_completed_at := (if e \<noteq> s \<and> s = Completed then Some now
                                      else o_completed_at x)\<rparr>)
         (filter (\<lambda>x. o_id x = oid \<and> o_status x = e) (orders d))
   \<and> ((\<exists>x \<in> set (orders d). o_id x = oid \<and> o_status x = e) \<longrightarrow>
        snd (update_status now oid e s d) \<noteq> [])"
proof -
  let ?wh = "\<lambda>x. o_id x = oid \<and> o_status x = e"
  let ?st = "\<lambda>x. x\<lparr>o_status := s\<rparr>"
  let ?row = "\<lambda>x. x\<lparr>o_status := s, o_updated_at := now,
                   o_completed_at := (if e \<noteq> s \<and> s = Completed then Some now
                                      else o_completed_at x)\<rparr>"
  have n: "new_row now ?wh ?st x = (if ?wh x then ?row x else x)" for x
    by (cases x) (auto simp: new_row_def)
  have 1: "update_status now oid e s d = (d, [])"
    if "\<forall>x \<in> set (orders d). o_id x = oid \<longrightarrow> o_status x \<noteq> e"
    unfolding update_status_def using that by (intro update_orders_no_match) simp
  have 2: "orders (fst (update_status now oid e s d)) = map (\<lambda>x. if ?wh x then ?row x else x) (orders d)"
    unfolding update_status_def update_orders_orders using n by simp
  have 3: "snd (update_status now oid e s d) = map ?row (filter ?wh (orders d))"
    unfolding update_status_def update_orders_returning
    by (rule map_cong) (simp_all add: n)
  have 4: "snd (update_status now oid e s d) \<noteq> []"
    if "\<exists>x \<in> set (orders d). o_id x = oid \<and> o_status x = e"
    unfolding 3 using that by (auto simp: filter_empty_conv)
  show ?thesis using 1 2 3 4 by blast
qed

theorem update_status_checks_no_graph_witness:
  "map o_status (orders (state_after lunch_ops)) = [Placed, Placed]
   \<and> update_status 200 4 Confirmed Preparing (state_after lunch_ops) = (state_after lunch_ops, [])
   \<and> map o_status (orders (fst (update_status 200 4 Placed Confirmed (state_after lunch_ops))))
       = [Confirmed, Placed]
   \<and> snd (update_status 200 4 Placed Confirmed (state_after lunch_ops)) \<noteq> []"
proof -
  note t = update_status_checks_no_graph [of "state_after lunch_ops" 4 Confirmed 200 Preparing]
  note t' = update_status_checks_no_graph [of "state_after lunch_ops" 4 Placed 200 Confirmed]
  have "update_status 200 4 Confirmed Preparing (state_after lunch_ops) = (state_after lunch_ops, [])"
    using t by (simp add: lunch_orders)
  moreover have "map o_status (orders (fst (update_status 200 4 Placed Confirmed (state_after lunch_ops))))
       = [Confirmed, Placed]"
    using t' by (simp add: lunch_orders)
  moreover have "snd (update_status 200 4 Placed Confirmed (state_after lunch_ops)) \<noteq> []"
    using t' by (simp add: lunch_orders)
  ultimately show ?thesis by (simp add: lunch_orders)
qed

text \<open>
  A placed order is taken to \<open>ready\<close> directly, and a completed order back to
  \<open>placed\<close>; neither is an edge of the graph, both updates succeed.
\<close>

theorem illegal_transition_counterexample:
  "\<not> spec_legal_successor Placed Ready
   \<and> map o_status (orders (state_after lunch_ops)) = [Placed, Placed]
   \<and> map o_status (snd (update_status 200 4 Placed Ready (state_after lunch_ops))) = [Ready]
   \<and> map o_status (orders (fst (update_status 200 4 Placed Ready (state_after lunch_ops))))
       = [Ready, Placed]
   \<and> \<not> spec_legal_successor Completed Placed
   \<and> map o_status (orders (state_after done_ops)) = [Completed, Placed]
   \<and> map o_status (orders (fst (update_status 200 4 Completed Placed (state_after done_ops))))
       = [Placed, Placed]"
  by (simp add: spec_legal_successor_def update_status_def update_orders_orders
      update_orders_returning new_row_def lunch_orders done_orders)

section \<open>The audit trail\<close>

lemma update_each_append:
  "\<forall>y \<in> set pre. \<not> wh y \<Longrightarrow>
     update_each now wh st (pre @ ys) d =
       (pre @ fst (update_each now wh st ys d), snd (update_each now wh st ys d))"
  by (induction pre) (simp_all add: split_beta)

lemma unique_row:
  assumes "distinct (map f xs)" and "x \<in> set xs"
  obtains pre post where "xs = pre @ x # post"
    and "\<forall>y \<in> set pre. f y \<noteq> f x" and "\<forall>y \<in> set post. f y \<noteq> f x"
proof -
  obtain pre post where s: "xs = pre @ x # post"
    using assms(2) by (meson split_list)
  have "distinct (map f pre @ f x # map f post)"
    using assms(1) unfolding s by simp
  then have "f x \<notin> f ` set pre" "f x \<notin> f ` set post"
    by auto
  then have "\<forall>y \<in> set pre. f y \<noteq> f x" "\<forall>y \<in> set post. f y \<noteq> f x"
    by (metis imageI)+
  then show ?thesis using s that by blast
qed

lemma history_ready:
  "map (\<lambda>h. (h_id h, h_order_id h, h_previous_status h, h_new_status h, h_changed_by h, h_changed_at h))
     (order_status_history (state_after ready_ops))
   = [(11, 4, Some Placed, Confirmed, Some 1, 120), (12, 4, Some Confirmed, Preparing, Some 1, 130),
      (13, 4, Some Preparing, Ready, Some 1, 140)]"
  by (simp add: ready_ops_def lunch_ops_def run_eval)

lemma ready_supply: "uuid_supply (state_after ready_ops) = 15"
  by (simp add: ready_ops_def lunch_ops_def run_eval)

text \<open>
  Claim C5. After any history of statements, an update that takes an order from one
  status to a different one appends exactly one history row, with the old status as
  previous status and the new status as new status, and sets \<open>completed_at\<close> when
  the new status is \<open>completed\<close>. The actor, however, is not what the row records:
  \<open>changed_by\<close> is the \<open>user_id\<close> of the order, its owner, whoever runs the
  statement.
\<close>

theorem status_change_logged_with_owner:
  assumes "run empty_db xs = Some d" and "x \<in> set (orders d)"
    and "o_id x = oid" and "o_status x = e" and "e \<noteq> s"
  shows "order_status_history (fst (update_status now oid e s d)) =
           order_status_history d @
             [\<lparr>h_id = uuid_supply d, h_order_id = oid, h_previous_status = Some e,
               h_new_status = s, h_changed_by = Some (o_user_id x), h_changed_at = now,
               h_notes = Some (''Status changed from '' @ status_text e @ '' to ''
                               @ status_text s)\<rparr>]
         \<and> snd (update_status now oid e s d) =
             [x\<lparr>o_status := s, o_updated_at := now,
                o_completed_at := (if s = Completed then Some now else o_completed_at x)\<rparr>]"
proof -
  let ?wh = "\<lambda>y. o_id y = oid \<and> o_status y = e"
  let ?st = "\<lambda>y. y\<lparr>o_status := s\<rparr>"
  let ?h = "\<lparr>h_id = uuid_supply d, h_order_id = oid, h_previous_status = Some e,
               h_new_status = s, h_changed_by = Some (o_user_id x), h_changed_at = now,
               h_notes = Some (''Status changed from '' @ status_text e @ '' to ''
                               @ status_text s)\<rparr>"
  have "db_inv d" using assms(1) by (rule reachable_inv)
  then have di: "distinct (map o_id (orders d))" by (simp add: db_inv_def)
  obtain pre post where s: "orders d = pre @ x # post"
    and pre: "\<forall>y \<in> set pre. o_id y \<noteq> o_id x" and post: "\<forall>y \<in> set post. o_id y \<noteq> o_id x"
    using unique_row [OF di assms(2)] by blast
  have npre: "\<forall>y \<in> set pre. \<not> ?wh y" using pre assms(3) by simp
  have npost: "\<forall>y \<in> set post. \<not> ?wh y" using post assms(3) by simp
  obtain new d1 where l: "log_order_status_change now x (update_updated_at_column now (?st x)) d
                          = (new, d1)"
    by (cases "log_order_status_change now x (update_updated_at_column now (?st x)) d")
  have h1: "order_status_history d1 = order_status_history d @ [?h]"
    using l assms(3,4,5)
    by (auto simp: log_order_status_change_def update_updated_at_column_def insert_history_def)
  have ux: "update_each now ?wh ?st (x # post) d = (new # post, d1)"
    using l assms(3,4) update_each_no_match [OF npost, of now ?st d1] by simp
  have u: "snd (update_each now ?wh ?st (orders d) d) = d1"
    unfolding s update_each_append [OF npre] ux by simp
  obtain rows where r: "update_each now ?wh ?st (orders d) d = (rows, d1)"
    using u by (cases "update_each now ?wh ?st (orders d) d") simp
  have "order_status_history (fst (update_orders now ?wh ?st d)) = order_status_history d1"
    using r after_each_db by (simp add: update_orders_def Let_def)
  then have 1: "order_status_history (fst (update_status now oid e s d))
                = order_status_history d @ [?h]"
    using h1 by (simp add: update_status_def)
  have f: "filter ?wh (orders d) = [x]"
    unfolding s using npre npost assms(3,4) by (simp add: filter_empty_conv)
  have 2: "snd (update_status now oid e s d) =
             [x\<lparr>o_status := s, o_updated_at := now,
                o_completed_at := (if s = Completed then Some now else o_completed_at x)\<rparr>]"
    unfolding update_status_def update_orders_returning f
    using assms(3,4,5) by (cases x) (simp add: new_row_def)
  show ?thesis using 1 2 by simp
qed

theorem status_change_logged_with_owner_witness:
  "run empty_db ready_ops = Some (state_after ready_ops)
   \<and> map (\<lambda>y. (o_id y, o_user_id y, o_status y)) (orders (state_after ready_ops))
       = [(4, 1, Ready), (8, 2, Placed)]
   \<and> map (\<lambda>h. (h_id h, h_order_id h, h_previous_status h, h_new_status h, h_changed_by h,
               h_changed_at h))
        (order_status_history (fst (update_status 150 4 Ready Completed (state_after ready_ops))))
       = [(11, 4, Some Placed, Confirmed, Some 1, 120),
          (12, 4, Some Confirmed, Preparing, Some 1, 130),
          (13, 4, Some Preparing, Ready, Some 1, 140),
          (15, 4, Some Ready, Completed, Some 1, 150)]
   \<and> map o_completed_at (snd (update_status 150 4 Ready Completed (state_after ready_ops)))
       = [Some 150]"
proof -
  let ?x = "\<lparr>o_id = 4, o_user_id = 1, o_status = Ready, o_total_amount = 1600,
       o_pickup_time = None, o_pickup_code = ''1234'', o_notes = None, o_created_at = 100,
       o_updated_at = 140, o_completed_at = None\<rparr>"
  have x: "?x \<in> set (orders (state_after ready_ops))"
    by (simp add: ready_orders)
  have ne: "Ready \<noteq> Completed" by simp
  note t = status_change_logged_with_owner [OF ready_run x _ _ ne, of 4 150]
  show ?thesis
    using t ready_run by (simp add: ready_orders history_ready ready_supply)
qed

section \<open>Order totals\<close>

lemma checkout_run: "run empty_db checkout_ops = Some (state_after checkout_ops)"
  by (simp add: checkout_ops_def run_eval)

lemma checkout_orders:
  "orders (state_after checkout_ops) =
     [\<lparr>o_id = 5, o_user_id = 1, o_status = Placed, o_total_amount = 2450,
       o_pickup_time = Some 130, o_pickup_code = ''1234'',
       o_notes = Some ''Extra napkins please'', o_created_at = 100, o_updated_at = 100,
       o_completed_at = None\<rparr>]"
  by (simp add: checkout_ops_def run_eval)

lemma checkout_items:
  "map (\<lambda>i. (oi_order_id i, oi_quantity i, oi_unit_price i)) (order_items (state_after checkout_ops))
     = [(5, 1, 900), (5, 2, 350), (5, 1, 400), (5, 1, 350)]"
  by (simp add: checkout_ops_def run_eval)

lemma items_sum_map:
  "items_sum d oid =
     sum_list (map (\<lambda>(o', q, p). q * p)
       (filter (\<lambda>(o', q, p). o' = oid)
          (map (\<lambda>i. (oi_order_id i, oi_quantity i, oi_unit_price i)) (order_items d))))"
  by (simp add: items_sum_def filter_map comp_def split_def)

lemma update_orders_totals:
  assumes k: "keeps_keys st"
  shows "order_items (fst (update_orders now wh st d)) = order_items d
         \<and> map o_id (orders (fst (update_orders now wh st d))) = map o_id (orders d)
         \<and> map o_total_amount (orders (fst (update_orders now wh st d)))
             = map o_total_amount (orders d)
         \<and> (list_all (total_within_tolerance d) (orders d) \<longrightarrow>
              list_all (total_within_tolerance (fst (update_orders now wh st d)))
                (orders (fst (update_orders now wh st d))))"
proof -
  let ?d = "fst (update_orders now wh st d)"
  have o: "orders ?d = map (new_row now wh st) (orders d)"
    by (rule update_orders_orders)
  have i: "order_items ?d = order_items d"
    using update_orders_same_tables [of d now wh st] by (simp add: same_tables_def)
  have s: "items_sum ?d oid = items_sum d oid" for oid
    by (simp add: items_sum_def i)
  have t: "total_within_tolerance ?d (new_row now wh st x) = total_within_tolerance d x" for x
    by (simp add: total_within_tolerance_def s new_row_keys [OF k])
  have 1: "map o_id (orders ?d) = map o_id (orders d)"
    unfolding o using new_row_keys(1) [OF k] by simp
  have 2: "map o_total_amount (orders ?d) = map o_total_amount (orders d)"
    unfolding o using new_row_keys(4) [OF k] by simp
  have 3: "list_all (total_within_tolerance ?d) (orders ?d)"
    if "list_all (total_within_tolerance d) (orders d)"
    unfolding o using that by (simp add: list_all_iff t)
  show ?thesis using i 1 2 3 by blast
qed

lemma to_decimal_10_2_Inr: "to_decimal_10_2 v = Inr w \<Longrightarrow> w = v"
  by (simp add: to_decimal_10_2_def split: if_splits)

lemma insert_order_row:
  assumes "insert_order now rnd u s t pt pc nt d = Some (Inr (d2, row))"
  shows "o_total_amount row = t \<and> row \<in> set (orders d2)"
proof -
  obtain w where w: "to_decimal_10_2 t = Inr w"
    using assms by (cases "to_decimal_10_2 t") (simp_all add: insert_order_def)
  have wt: "w = t" using w by (rule to_decimal_10_2_Inr)
  obtain code where c: "set_pickup_code (orders d) rnd pc = Some code"
    using assms w
    by (cases "set_pickup_code (orders d) rnd pc") (simp_all add: insert_order_def split: if_splits)
  show ?thesis
    using assms w c wt
    by (simp add: insert_order_def Let_def notify_order_placed_def insert_notification_def
        split: if_splits) auto
qed

text \<open>
  Claim C1, as amended. No constraint or trigger compares the total of an order with
  its items: an insert stores the total that the client sends, and
  \<open>validate_order_total\<close>, which accepts a row exactly when the sum of its items
  differs from its total by at most 0.05 (and fits the column type), is attached to
  no table. What the statements do guarantee is that a status transition changes
  neither a total nor an item, so that orders whose totals are within 0.05 of their
  items before a transition still are after it.
\<close>

theorem transitions_keep_totals:
  assumes "d' \<in> {fst (update_status now oid e s d), fst (complete_order now c d),
                  fst (cancel_orders now ids d)}"
  shows "order_items d' = order_items d
         \<and> map o_id (orders d') = map o_id (orders d)
         \<and> map o_total_amount (orders d') = map o_total_amount (orders d)
         \<and> (list_all (total_within_tolerance d) (orders d) \<longrightarrow>
              list_all (total_within_tolerance d') (orders d'))
         \<and> (validate_order_total y d = Inr y) =
             (\<bar>items_sum d (o_id y)\<bar> < 10 ^ 10
              \<and> \<bar>o_total_amount y - items_sum d (o_id y)\<bar> \<le> 5)
         \<and> (insert_order now rnd u s t pt pc nt d = Some (Inr (dn, row)) \<longrightarrow>
              o_total_amount row = t \<and> row \<in> set (orders dn))"
proof -
  have v: "(validate_order_total y d = Inr y) =
             (\<bar>items_sum d (o_id y)\<bar> < 10 ^ 10
              \<and> \<bar>o_total_amount y - items_sum d (o_id y)\<bar> \<le> 5)"
    by (auto simp: validate_order_total_def to_decimal_10_2_def)
  have i: "o_total_amount row = t \<and> row \<in> set (orders dn)"
    if "insert_order now rnd u s t pt pc nt d = Some (Inr (dn, row))"
    using that by (rule insert_order_row)
  consider (status) "d' = fst (update_status now oid e s d)"
    | (complete) "d' = fst (complete_order now c d)"
    | (cancel) "d' = fst (cancel_orders now ids d)"
    using assms by blast
  then have "order_items d' = order_items d
         \<and> map o_id (orders d') = map o_id (orders d)
         \<and> map o_total_amount (orders d') = map o_total_amount (orders d)
         \<and> (list_all (total_within_tolerance d) (orders d) \<longrightarrow>
              list_all (total_within_tolerance d') (orders d'))"
  proof cases
    case status
    show ?thesis
      unfolding status update_status_def by (rule update_orders_totals [OF keeps_keys_status])
  next
    case complete
    show ?thesis
      unfolding complete complete_order_def by (rule update_orders_totals [OF keeps_keys_complete])
  next
    case cancel
    show ?thesis
      unfolding cancel cancel_orders_def by (rule update_orders_totals [OF keeps_keys_status])
  qed
  then show ?thesis using v i by blast
qed

theorem transitions_keep_totals_witness:
  "list_all (total_within_tolerance (state_after lunch_ops)) (orders (state_after lunch_ops))
   \<and> list_all (total_within_tolerance (fst (update_status 120 4 Placed Confirmed (state_after lunch_ops))))
       (orders (fst (update_status 120 4 Placed Confirmed (state_after lunch_ops))))
   \<and> map o_total_amount (orders (fst (update_status 120 4 Placed Confirmed (state_after lunch_ops))))
       = [1600, 900]
   \<and> items_sum (state_after lunch_ops) 4 = 1600
   \<and> validate_order_total (hd (orders (state_after lunch_ops))) (state_after lunch_ops)
       = Inr (hd (orders (state_after lunch_ops)))
   \<and> validate_order_total (hd (orders (state_after checkout_ops))) (state_after checkout_ops)
       = Inl (RaisedException ''Order total does not match sum of items'')
   \<and> (\<exists>d2 row. insert_order 120 (7 ## sconst 0) 1 Confirmed 99999 None None None
                      (state_after lunch_ops) = Some (Inr (d2, row))
                  \<and> o_total_amount row = 99999 \<and> row \<in> set (orders d2))"
proof -
  let ?d = "state_after lunch_ops"
  let ?d' = "fst (update_status 120 4 Placed Confirmed ?d)"
  have m: "?d' \<in> {fst (update_status 120 4 Placed Confirmed ?d), fst (complete_order 120 [] ?d),
                  fst (cancel_orders 120 [] ?d)}"
    by simp
  note t = transitions_keep_totals [OF m, of "hd (orders ?d)"]
  have li: "map (\<lambda>i. (oi_order_id i, oi_quantity i, oi_unit_price i)) (order_items ?d)
     = [(4, 1, 900), (4, 2, 350), (8, 1, 900)]"
    by (simp add: lunch_ops_def run_eval)
  have s4: "items_sum ?d 4 = 1600" and s8: "items_sum ?d 8 = 900"
    unfolding items_sum_map li by simp_all
  have a: "list_all (total_within_tolerance ?d) (orders ?d)"
    by (simp add: lunch_orders total_within_tolerance_def s4 s8)
  have b: "list_all (total_within_tolerance ?d') (orders ?d')"
    using t a by blast
  have c: "map o_total_amount (orders ?d') = [1600, 900]"
    using t by (simp add: lunch_orders)
  have v: "validate_order_total (hd (orders ?d)) ?d = Inr (hd (orders ?d))"
    using t by (simp add: lunch_orders s4)
  have s5: "items_sum (state_after checkout_ops) 5 = 2350"
    unfolding items_sum_map checkout_items by simp
  have w: "validate_order_total (hd (orders (state_after checkout_ops))) (state_after checkout_ops)
       = Inl (RaisedException ''Order total does not match sum of items'')"
    by (simp add: validate_order_total_def to_decimal_10_2_def checkout_orders s5)
  obtain d2 row where
    i: "insert_order 120 (7 ## sconst 0) 1 Confirmed 99999 None None None ?d = Some (Inr (d2, row))"
    by (simp add: insert_order_def set_pickup_code_def to_decimal_10_2_def code_eval Let_def
        lunch_orders lunch_users lunch_supply)
  have "o_total_amount row = 99999 \<and> row \<in> set (orders d2)"
    using transitions_keep_totals [OF m, where rnd = "7 ## sconst 0" and u = 1 and t = 99999
        and pt = None and pc = None and nt = None and dn = d2 and row = row] i
    by blast
  then have j: "\<exists>d2 row. insert_order 120 (7 ## sconst 0) 1 Confirmed 99999 None None None ?d
                  = Some (Inr (d2, row)) \<and> o_total_amount row = 99999 \<and> row \<in> set (orders d2)"
    using i by blast
  show ?thesis using a b c s4 v w j by simp
qed

text \<open>
  The order placement of the query file: the order is stored with a total of 24.50,
  its four items sum to 23.50.
\<close>

theorem order_total_counterexample:
  "run empty_db checkout_ops = Some (state_after checkout_ops)
   \<and> map (\<lambda>x. (o_id x, o_total_amount x)) (orders (state_after checkout_ops)) = [(5, 2450)]
   \<and> map (\<lambda>i. (oi_order_id i, oi_quantity i, oi_unit_price i))
        (order_items (state_after checkout_ops))
       = [(5, 1, 900), (5, 2, 350), (5, 1, 400), (5, 1, 350)]
   \<and> items_sum (state_after checkout_ops) 5 = 2350
   \<and> \<not> total_within_tolerance (state_after checkout_ops) (hd (orders (state_after checkout_ops)))"
proof -
  have s5: "items_sum (state_after checkout_ops) 5 = 2350"
    unfolding items_sum_map checkout_items by simp
  show ?thesis
    using checkout_run checkout_items s5
    by (simp add: checkout_orders total_within_tolerance_def)
qed

section \<open>The staff queue\<close>

lemma queue_run: "run empty_db queue_ops = Some (state_after queue_ops)"
  by (simp add: queue_ops_def ready_ops_def lunch_ops_def run_eval)

lemma queue_orders:
  "map (\<lambda>x. (o_id x, o_user_id x, o_status x, o_created_at x)) (orders (state_after queue_ops))
     = [(4, 1, Ready, 100), (8, 2, Placed, 110), (15, 2, Placed, 150)]"
  by (simp add: queue_ops_def ready_ops_def lunch_ops_def run_eval)

lemma queue_list:
  "map (\<lambda>r. (q_id r, q_status r, q_created_at r, q_customer_name r, q_item_count r))
     (list_queue (state_after queue_ops))
     = [(8, Placed, 110, ''Luis'', 1), (15, Placed, 150, ''Luis'', 0), (4, Ready, 100, ''Ana'', 2)]"
  by (simp add: queue_ops_def ready_ops_def lunch_ops_def run_eval list_queue_def queue_rows_def
      select_queue_row_def sort_key_def less_eq_prod_def)

lemma unique_profile:
  assumes "distinct (map pf_user_id ps)" and "p \<in> set ps"
  shows "filter (\<lambda>q. pf_user_id q = pf_user_id p) ps = [p]"
proof -
  obtain pre post where s: "ps = pre @ p # post"
    and "\<forall>y \<in> set pre. pf_user_id y \<noteq> pf_user_id p"
    and "\<forall>y \<in> set post. pf_user_id y \<noteq> pf_user_id p"
    using unique_row [OF assms] by blast
  then show ?thesis by (simp add: filter_empty_conv)
qed

lemma concat_map_single:
  assumes "\<forall>x \<in> set xs. \<exists>p. sel x = [p] \<and> h (g x p) = k x"
  shows "map h (concat (map (\<lambda>x. map (g x) (sel x)) xs)) = map k xs"
  using assms
proof (induction xs)
  case Nil
  show ?case by simp
next
  case (Cons a xs)
  obtain p where p: "sel a = [p]" "h (g a p) = k a"
    using Cons.prems by auto
  have "map h (concat (map (\<lambda>x. map (g x) (sel x)) xs)) = map k xs"
    using Cons by simp
  then show ?case using p by simp
qed

lemma queue_rows_ids:
  assumes "db_inv d"
  shows "map (\<lambda>r. (q_id r, q_status r, q_created_at r)) (queue_rows d) =
           map (\<lambda>x. (o_id x, o_status x, o_created_at x))
             (filter (\<lambda>x. o_status x \<in> {Placed, Confirmed, Preparing, Ready}) (orders d))"
proof -
  have dp: "distinct (map pf_user_id (profiles d))"
    using assms by (simp add: db_inv_def)
  have one: "\<exists>p. filter (\<lambda>q. pf_user_id q = o_user_id x) (profiles d) = [p]"
    if "x \<in> set (orders d)" for x
  proof -
    have "o_user_id x \<in> set (auth_users d)"
      using assms that by (simp add: db_inv_def)
    then obtain p where p: "p \<in> set (profiles d)" "pf_user_id p = o_user_id x"
      using assms by (auto simp: db_inv_def)
    have "filter (\<lambda>q. pf_user_id q = pf_user_id p) (profiles d) = [p]"
      using dp p(1) by (rule unique_profile)
    then show ?thesis unfolding p(2) by (rule exI)
  qed
  show ?thesis
    unfolding queue_rows_def
  proof (rule concat_map_single, rule ballI)
    fix x
    assume "x \<in> set (filter (\<lambda>x. o_status x \<in> {Placed, Confirmed, Preparing, Ready}) (orders d))"
    then have "x \<in> set (orders d)" by simp
    then obtain p where "filter (\<lambda>q. pf_user_id q = o_user_id x) (profiles d) = [p]"
      using one by blast
    then show "\<exists>p. filter (\<lambda>p. pf_user_id p = o_user_id x) (profiles d) = [p]
        \<and> (q_id (select_queue_row d x p), q_status (select_queue_row d x p),
            q_created_at (select_queue_row d x p)) = (o_id x, o_status x, o_created_at x)"
      by (simp add: select_queue_row_def)
  qed
qed

lemma status_priority_active:
  assumes "a \<in> {Placed, Confirmed, Preparing, Ready}" and "b \<in> {Placed, Confirmed, Preparing, Ready}"
    and "status_priority a = status_priority b"
  shows "a = b"
  using assms by auto

text \<open>
  Claim C8. After any history of statements, the queue holds exactly the orders whose
  status is neither \<open>completed\<close> nor \<open>cancelled\<close>, each once, and of any two of its
  rows the earlier one has the lower status priority, or the same status and a
  creation time that is not later; the priorities are
  \<open>placed < confirmed < preparing < ready\<close>.
\<close>

theorem list_queue_sorted:
  assumes "run empty_db xs = Some d"
  shows "sorted_wrt (\<lambda>a b. status_priority (q_status a) < status_priority (q_status b)
                          \<or> (q_status a = q_status b \<and> q_created_at a \<le> q_created_at b))
           (list_queue d)
         \<and> mset (map (\<lambda>r. (q_id r, q_status r, q_created_at r)) (list_queue d)) =
             mset (map (\<lambda>x. (o_id x, o_status x, o_created_at x))
                    (filter (\<lambda>x. o_status x \<notin> {Completed, Cancelled}) (orders d)))
         \<and> status_priority Placed < status_priority Confirmed
         \<and> status_priority Confirmed < status_priority Preparing
         \<and> status_priority Preparing < status_priority Ready"
proof -
  let ?k = "\<lambda>r. (status_priority (q_status r), q_created_at r)"
  let ?act = "{Placed, Confirmed, Preparing, Ready}"
  have inv: "db_inv d" using assms by (rule reachable_inv)
  have f: "(\<lambda>x::order. o_status x \<notin> {Completed, Cancelled}) = (\<lambda>x. o_status x \<in> ?act)"
  proof
    fix x :: order show "(o_status x \<notin> {Completed, Cancelled}) = (o_status x \<in> ?act)"
      by (cases "o_status x") simp_all
  qed
  have m: "mset (map (\<lambda>r. (q_id r, q_status r, q_created_at r)) (list_queue d)) =
             mset (map (\<lambda>x. (o_id x, o_status x, o_created_at x))
                    (filter (\<lambda>x. o_status x \<notin> {Completed, Cancelled}) (orders d)))"
    unfolding f queue_rows_ids [OF inv, symmetric] list_queue_def by simp
  have act: "q_status r \<in> ?act" if "r \<in> set (list_queue d)" for r
  proof -
    have "r \<in> set (queue_rows d)" using that by (simp add: list_queue_def)
    then have "(q_id r, q_status r, q_created_at r)
                 \<in> set (map (\<lambda>r. (q_id r, q_status r, q_created_at r)) (queue_rows d))"
      by force
    then show ?thesis unfolding queue_rows_ids [OF inv] by auto
  qed
  have "sorted (map ?k (list_queue d))"
    unfolding list_queue_def by (rule sorted_sort_key)
  then have s: "sorted_wrt (\<lambda>a b. ?k a \<le> ?k b) (list_queue d)"
    by (simp add: sorted_map)
  have "sorted_wrt (\<lambda>a b. status_priority (q_status a) < status_priority (q_status b)
                          \<or> (q_status a = q_status b \<and> q_created_at a \<le> q_created_at b))
           (list_queue d)"
  proof (rule sorted_wrt_mono_rel [OF _ s])
    fix a b
    assume a: "a \<in> set (list_queue d)" and b: "b \<in> set (list_queue d)" and le: "?k a \<le> ?k b"
    show "status_priority (q_status a) < status_priority (q_status b)
            \<or> (q_status a = q_status b \<and> q_created_at a \<le> q_created_at b)"
    proof (cases "status_priority (q_status a) < status_priority (q_status b)")
      case True
      then show ?thesis by simp
    next
      case False
      then have e: "status_priority (q_status a) = status_priority (q_status b)"
        and t: "q_created_at a \<le> q_created_at b"
        using le by (auto simp: less_eq_prod_def)
      have "q_status a = q_status b"
        using status_priority_active [OF act [OF a] act [OF b] e] .
      then show ?thesis using t by simp
    qed
  qed
  then show ?thesis using m by simp
qed

theorem list_queue_sorted_witness:
  "run empty_db queue_ops = Some (state_after queue_ops)
   \<and> map (\<lambda>x. (o_id x, o_user_id x, o_status x, o_created_at x)) (orders (state_after queue_ops))
       = [(4, 1, Ready, 100), (8, 2, Placed, 110), (15, 2, Placed, 150)]
   \<and> map (\<lambda>r. (q_id r, q_status r, q_created_at r, q_customer_name r, q_item_count r))
        (list_queue (state_after queue_ops))
       = [(8, Placed, 110, ''Luis'', 1), (15, Placed, 150, ''Luis'', 0), (4, Ready, 100, ''Ana'', 2)]
   \<and> sorted_wrt (\<lambda>a b. status_priority (q_status a) < status_priority (q_status b)
                          \<or> (q_status a = q_status b \<and> q_created_at a \<le> q_created_at b))
           (list_queue (state_after queue_ops))"
  using list_queue_sorted [OF queue_run] queue_run queue_orders queue_list by simp

end
